theory Spec2Isabelle
  imports Main "HOL-Library.Word" "HOL-Library.Signed_Division"
begin

unbundle bit_operations_syntax

section \<open>The b4 virtual machine: data model\<close>

text \<open>
  The operand type \<open>T\<close> of b4.c is \<open>int32_t\<close>: a 32-bit word, whose arithmetic wraps
  and which is read as a signed number by \<open>sint\<close>. Code positions (type \<open>P\<close>, nibble
  indices) and the C \<open>int\<close> counters \<open>sp\<close> and \<open>fp\<close> stay far below \<open>2 ^ 31\<close> and are
  integers. A code value (type \<open>C\<close>) is a byte.

  The static arrays \<open>st\<close>, \<open>fr\<close> and \<open>fn\<close> have 1024 entries each (\<open>st[MAXSP]\<close>,
  \<open>fr[MAXFN]\<close>, \<open>fn[MAXFR]\<close>), and b4.c never checks an index. An access outside the
  declared bounds has no defined behaviour in C: the compiled program reads or
  overwrites whatever object lies there, or is killed. The model therefore checks every
  index into these three arrays and stops with \<open>Out_of_bounds\<close> at the first access
  outside: this is not an exit of the program, and nothing is said about what the
  program does from there on. Inside the bounds the arrays are functions of the index.

  The blocks \<open>code\<close> and \<open>jtbl\<close> are allocated by \<open>b4cmd\<close> for each command; they are
  functions of the index too, and what a fresh block holds is a parameter of \<open>b4cmd\<close>.
\<close>

type_synonym T = "32 word"
type_synonym P = int
type_synonym C = "8 word"

abbreviation MAXSP :: int where "MAXSP \<equiv> 1024"
abbreviation MAXFR :: int where "MAXFR \<equiv> 1024"
abbreviation MAXFN :: int where "MAXFN \<equiv> 1024"
abbreviation MAXNP :: nat where "MAXNP \<equiv> 1024"
abbreviation MAXNM :: nat where "MAXNM \<equiv> 256"
abbreviation BADIP :: P where "BADIP \<equiv> - 1"

abbreviation C_BCD :: C where "C_BCD \<equiv> 0"
abbreviation C_ADD :: C where "C_ADD \<equiv> 1"
abbreviation C_SUB :: C where "C_SUB \<equiv> 2"
abbreviation C_MUL :: C where "C_MUL \<equiv> 3"
abbreviation C_RWS :: C where "C_RWS \<equiv> 4"
abbreviation C_RDA :: C where "C_RDA \<equiv> 5"
abbreviation C_STA :: C where "C_STA \<equiv> 6"
abbreviation C_POP :: C where "C_POP \<equiv> 7"
abbreviation C_SWP :: C where "C_SWP \<equiv> 8"
abbreviation C_DFN :: C where "C_DFN \<equiv> 9"
abbreviation C_RUN :: C where "C_RUN \<equiv> 10"
abbreviation C_RET :: C where "C_RET \<equiv> 11"
abbreviation C_JAO :: C where "C_JAO \<equiv> 12"
abbreviation C_JAC :: C where "C_JAC \<equiv> 13"
abbreviation C_JBO :: C where "C_JBO \<equiv> 14"
abbreviation C_JBC :: C where "C_JBC \<equiv> 15"

abbreviation BCD_N :: C where "BCD_N \<equiv> 10"
abbreviation BCD_P :: C where "BCD_P \<equiv> 11"

abbreviation SI_TOP :: T where "SI_TOP \<equiv> 0"
abbreviation SI_SAY :: T where "SI_SAY \<equiv> 1"
abbreviation SI_HLT :: T where "SI_HLT \<equiv> 2"

text \<open>Every \<open>exit(-1)\<close> of b4.c is a value of \<open>fatal\<close>, named after the message printed.\<close>

datatype fatal =
    Bad_BCD C
  | Bad_function T
  | Halt
  | Couldnt_match_dfn
  | Couldnt_match C
  | Name_table_overflow
  | Name_too_long
  | Unterminated_quote
  | Bad_opcode char

text \<open>
  How a run stops short of its end: by one of the exits, or at an access outside one of
  the static arrays.
\<close>

datatype array = Array_st | Array_fr | Array_fn

datatype stop =
    Exit fatal
  | Out_of_bounds array

text \<open>What the program writes to standard output, call by call.\<close>

datatype outp =
    Putchar "8 word"
  | Printf_top T
  | Printf_code_size int

record frame =
  f_start :: P
  f_end :: P
  f_ip :: P
  f_ra :: T

record func =
  fn_start :: P
  fn_end :: P

record b4 =
  st :: "int \<Rightarrow> T"
  sp :: int
  fp :: int
  fr :: "int \<Rightarrow> frame"
  fn :: "int \<Rightarrow> func"
  nm :: "string list"
  code :: "int \<Rightarrow> C"
  jtbl :: "int \<Rightarrow> P"
  ip :: P
  start :: P
  endp :: P
  ra :: T
  ready :: bool
  out :: "outp list"

section \<open>Stack and nibble access (the macros)\<close>

text \<open>
  The indices of the declarations \<open>T st[MAXSP]\<close>, \<open>fr[MAXFN]\<close> (the frames) and
  \<open>fn[MAXFR]\<close> (the functions).
\<close>

definition in_st :: "int \<Rightarrow> bool" where
  "in_st i = (0 \<le> i \<and> i < MAXSP)"

definition in_fr :: "int \<Rightarrow> bool" where
  "in_fr i = (0 \<le> i \<and> i < MAXFN)"

definition in_fn :: "int \<Rightarrow> bool" where
  "in_fn i = (0 \<le> i \<and> i < MAXFR)"

text \<open>
  \<open>push(v)\<close> is \<open>st[sp++] = (v)\<close>, \<open>pop\<close> is \<open>st[--sp]\<close> and \<open>top\<close> is \<open>st[sp-1]\<close>: none
  compares \<open>sp\<close> with anything, and each indexes \<open>st\<close>.
\<close>

definition push :: "T \<Rightarrow> b4 \<Rightarrow> stop + b4" where
  "push v s =
     (if in_st (sp s) then Inr (s\<lparr>st := (st s)(sp s := v), sp := sp s + 1\<rparr>)
      else Inl (Out_of_bounds Array_st))"

definition pop :: "b4 \<Rightarrow> stop + T \<times> b4" where
  "pop s =
     (if in_st (sp s - 1) then Inr (st s (sp s - 1), s\<lparr>sp := sp s - 1\<rparr>)
      else Inl (Out_of_bounds Array_st))"

definition top' :: "b4 \<Rightarrow> stop + T" where
  "top' s = (if in_st (sp s - 1) then Inr (st s (sp s - 1)) else Inl (Out_of_bounds Array_st))"

text \<open>A step that can stop, followed by the rest of the instruction.\<close>

definition and_then :: "stop + 'a \<Rightarrow> ('a \<Rightarrow> (stop + 'b) option) \<Rightarrow> (stop + 'b) option" where
  "and_then r f = (case r of Inl e \<Rightarrow> Some (Inl e) | Inr x \<Rightarrow> f x)"

text \<open>
  \<open>(ip&1) ? code[ip/2]>>4 : code[ip/2]&0xF\<close>: C's division truncates towards zero
  (\<open>sdiv\<close>), and \<open>ip&1\<close> is the parity of \<open>ip\<close>.
\<close>

definition nibble :: "(int \<Rightarrow> C) \<Rightarrow> P \<Rightarrow> C" where
  "nibble c i = (if odd i then drop_bit 4 (c (i sdiv 2)) else c (i sdiv 2) AND 0xF)"

definition rd :: "b4 \<Rightarrow> C \<times> b4" where
  "rd s = (nibble (code s) (ip s), s\<lparr>ip := ip s + 1\<rparr>)"

definition pk :: "b4 \<Rightarrow> C" where
  "pk s = nibble (code s) (ip s)"

section \<open>The variable-length integer codec\<close>

text \<open>
  \<open>bcd\<close>: the \<open>for (;;)\<close> loop reads nibbles (\<open>rd\<close>: the nibble at \<open>ip\<close>, then
  \<open>ip++\<close>) until a terminator or a bad code; in a memory without either it never
  returns, which is the value \<open>None\<close>. The loop yields the decoded value and the new \<open>ip\<close>.
\<close>

partial_function (option) bcd_loop :: "(int \<Rightarrow> C) \<Rightarrow> T \<Rightarrow> T \<Rightarrow> P \<Rightarrow> (fatal + T \<times> P) option" where
  [code]: "bcd_loop cd v b i =
     (let c = nibble cd i in
      if c AND 0xF \<le> 9 then bcd_loop cd (v * 10 + ucast c) (b * 10) (i + 1)
      else if c AND 0xF = BCD_N \<or> c AND 0xF = BCD_P
        then Some (Inr (v + b * (if c = BCD_P then 1 else 0), i + 1))
      else Some (Inl (Bad_BCD c)))"

definition bcd :: "b4 \<Rightarrow> (stop + b4) option" where
  "bcd s =
     (case bcd_loop (code s) 0 1 (ip s) of
        None \<Rightarrow> None
      | Some (Inl f) \<Rightarrow> Some (Inl (Exit f))
      | Some (Inr (v, i)) \<Rightarrow> Some (push v (s\<lparr>ip := i\<rparr>)))"

text \<open>
  \<open>emit(c)\<close>: an even position assigns the byte, an odd one ors the code into its
  high half. The buffer is \<open>uint8_t\<close>, so the shifted code is cut to eight bits.
\<close>

definition emit :: "C \<Rightarrow> (int \<Rightarrow> C) \<times> P \<Rightarrow> (int \<Rightarrow> C) \<times> P" where
  "emit c qi = (case qi of (q, i) \<Rightarrow>
     (if odd i then q(i sdiv 2 := q (i sdiv 2) OR push_bit 4 c) else q(i sdiv 2 := c), i + 1))"

text \<open>
  \<open>do { *n++ = v%10; v /= 10; } while (v);\<close> stores the decimal digits of \<open>v\<close>, least
  significant first, in the buffer \<open>name\<close>; \<open>%\<close> and \<open>/\<close> truncate towards zero.
\<close>

function digits :: "int \<Rightarrow> int list" where
  "digits v = (v smod 10) # (if v sdiv 10 \<noteq> 0 then digits (v sdiv 10) else [])"
  by pat_completeness auto
termination
proof (relation "measure (\<lambda>v. nat \<bar>v\<bar>)")
  show "wf (measure (\<lambda>v. nat \<bar>v\<bar>))" by simp
next
  fix v :: int
  assume "v sdiv 10 \<noteq> 0"
  then have "\<bar>v\<bar> div 10 \<noteq> 0" by (auto simp: signed_divide_int_def)
  then have "\<bar>v\<bar> div 10 < \<bar>v\<bar>" by linarith
  moreover have "\<bar>v sdiv 10\<bar> = \<bar>v\<bar> div 10"
    by (cases "v = 0") (simp_all add: signed_divide_int_def abs_mult abs_sgn_eq)
  ultimately show "(v sdiv 10, v) \<in> measure (\<lambda>v. nat \<bar>v\<bar>)" by simp
qed

declare digits.simps [simp del]

text \<open>
  \<open>emitBCD\<close>: \<open>b\<close> is the most significant digit (the last one stored); it is emitted
  only when greater than 1, then the remaining digits from the most significant down,
  then the terminator. A \<open>char\<close> digit is emitted as its low byte.
\<close>

definition emitBCD :: "(int \<Rightarrow> C) \<Rightarrow> P \<Rightarrow> int \<Rightarrow> (int \<Rightarrow> C) \<times> P" where
  "emitBCD q i v =
     (let n = digits v;
          b = last n;
          qi = emit C_BCD (q, i);
          qi = (if b > 1 then emit (word_of_int b) qi else qi);
          qi = fold (\<lambda>d. emit (word_of_int d)) (rev (butlast n)) qi
      in emit (if b = 1 then 11 else 10) qi)"

section \<open>The interpreter\<close>

text \<open>
  \<open>swi\<close>, the built-ins. For \<open>say\<close>, \<open>while (s && st[s]) s--;\<close> starts at \<open>st[sp]\<close>,
  the cell above the top of the stack, and stops at index 0 or at a zero cell; then
  every cell from there up to the old \<open>sp\<close> is written with \<open>putchar\<close>, which keeps the
  low byte, and a newline follows. The cells printed are cells that the scan has read
  (or the cell 0 below them), so they lie inside \<open>st\<close>.
\<close>

function say_scan :: "(int \<Rightarrow> T) \<Rightarrow> int \<Rightarrow> stop + int" where
  "say_scan m s =
     (if s \<noteq> 0 then
        (if in_st s then (if m s \<noteq> 0 then say_scan m (s - 1) else Inr s)
         else Inl (Out_of_bounds Array_st))
      else Inr s)"
  by pat_completeness auto
termination
  by (relation "measure (\<lambda>(m, s). nat s)") (auto simp add: in_st_def)

declare say_scan.simps [simp del]

definition swi :: "T \<Rightarrow> b4 \<Rightarrow> stop + b4" where
  "swi id' s =
     (if id' = SI_TOP then
        (case top' s of
           Inl e \<Rightarrow> Inl e
         | Inr v \<Rightarrow> Inr (s\<lparr>out := out s @ [Printf_top v]\<rparr>))
      else if id' = SI_SAY then
        (case say_scan (st s) (sp s) of
           Inl e \<Rightarrow> Inl e
         | Inr k \<Rightarrow> Inr (s\<lparr>sp := k,
             out := out s @ map (\<lambda>i. Putchar (ucast (st s i))) [k..sp s - 1] @ [Putchar 10]\<rparr>))
      else if id' = SI_HLT then Inl (Exit Halt)
      else Inl (Exit (Bad_function id')))"

text \<open>
  \<open>dfn_close\<close>: the inner \<open>for\<close> runs from a \<open>C_BCD\<close> code to the literal's terminator
  (or to \<open>end\<close>), and the outer \<open>ip++\<close> then steps over it.
\<close>

function skip_bcd :: "(int \<Rightarrow> C) \<Rightarrow> P \<Rightarrow> P \<Rightarrow> P" where
  "skip_bcd c e i =
     (if i < e \<and> nibble c i \<noteq> BCD_N \<and> nibble c i \<noteq> BCD_P then skip_bcd c e (i + 1) else i)"
  by pat_completeness auto
termination
  by (relation "measure (\<lambda>(c, e, i). nat (e - i))") auto

declare skip_bcd.simps [simp del]

lemma skip_bcd_ge: "i \<le> skip_bcd c e i"
proof (induction c e i rule: skip_bcd.induct)
  case (1 c e i)
  show ?case
  proof (cases "i < e \<and> nibble c i \<noteq> BCD_N \<and> nibble c i \<noteq> BCD_P")
    case True
    with "1.IH" have "i + 1 \<le> skip_bcd c e (i + 1)" by simp
    moreover from True have "skip_bcd c e i = skip_bcd c e (i + 1)"
      by (subst skip_bcd.simps) simp
    ultimately show ?thesis by simp
  next
    case False
    then have "skip_bcd c e i = i"
      by (subst skip_bcd.simps) auto
    then show ?thesis by simp
  qed
qed

function dfn_close_loop :: "(int \<Rightarrow> C) \<Rightarrow> P \<Rightarrow> P \<Rightarrow> fatal + P" where
  "dfn_close_loop c e i =
     (if i < e then
        (if nibble c i = C_DFN then Inr (i + 1)
         else dfn_close_loop c e ((if nibble c i = C_BCD then skip_bcd c e i else i) + 1))
      else Inl Couldnt_match_dfn)"
  by pat_completeness auto
termination
proof (relation "measure (\<lambda>(c, e, i). nat (e - i))")
  show "wf (measure (\<lambda>(c, e, i). nat (e - i)))" by simp
next
  fix c :: "int \<Rightarrow> C" and e i :: P
  assume "i < e"
  moreover have "i \<le> skip_bcd c e i" by (rule skip_bcd_ge)
  ultimately show "((c, e, (if nibble c i = C_BCD then skip_bcd c e i else i) + 1), c, e, i)
      \<in> measure (\<lambda>(c, e, i). nat (e - i))"
    by auto
qed

declare dfn_close_loop.simps [simp del]

definition dfn_close :: "b4 \<Rightarrow> fatal + P \<times> b4" where
  "dfn_close s =
     (case dfn_close_loop (code s) (endp s) (ip s) of
        Inl e \<Rightarrow> Inl e
      | Inr i \<Rightarrow> Inr (i, s\<lparr>ip := i\<rparr>))"

text \<open>
  \<open>dfn\<close> indexes \<open>fn\<close> with the id as it comes from the stack, first for the start of
  the body, then, after the scan, for its end.
\<close>

definition dfn :: "T \<Rightarrow> b4 \<Rightarrow> stop + b4" where
  "dfn id' s =
     (if in_fn (sint id') then
        (let s1 = s\<lparr>fn := (fn s)(sint id' := (fn s (sint id'))\<lparr>fn_start := ip s\<rparr>)\<rparr> in
         case dfn_close s1 of
           Inl e \<Rightarrow> Inl (Exit e)
         | Inr (r, s2) \<Rightarrow> Inr (s2\<lparr>fn := (fn s2)(sint id' := (fn s2 (sint id'))\<lparr>fn_end := r - 1\<rparr>)\<rparr>))
      else Inl (Out_of_bounds Array_fn))"

text \<open>
  \<open>run\<close> reads \<open>fn[id].end\<close> first; an entry whose end is zero is a built-in. Otherwise
  the frame is stored at \<open>fr[fp]\<close>, with no comparison of \<open>fp\<close> with the size of \<open>fr\<close>.
\<close>

definition run :: "T \<Rightarrow> b4 \<Rightarrow> stop + b4" where
  "run id' s =
     (if in_fn (sint id') then
        (if fn_end (fn s (sint id')) = 0 then swi id' s
         else if in_fr (fp s) then
           Inr (s\<lparr>
             fr := (fr s)(fp s := \<lparr>f_start = start s, f_end = endp s, f_ip = ip s, f_ra = ra s\<rparr>),
             fp := fp s + 1,
             start := fn_start (fn s (sint id')),
             endp := fn_end (fn s (sint id')),
             ip := fn_start (fn s (sint id')),
             ra := 0\<rparr>)
         else Inl (Out_of_bounds Array_fr))
      else Inl (Out_of_bounds Array_fn))"

text \<open>
  \<open>rw\<close>: for a non-negative index the cell is read with \<open>sp\<close> as it is after the pop of
  the index, as the header of b4.c documents (\<open>push(stack[sp-1-I])\<close>). The index
  comes from the stack and is used as it is, in the read \<open>st[sp-1-index]\<close> and in the
  write \<open>st[sp+index]\<close>.
\<close>

definition rw :: "T \<Rightarrow> b4 \<Rightarrow> stop + b4" where
  "rw index s =
     (if 0 \<le>s index then
        (if in_st (sp s - 1 - sint index) then push (st s (sp s - 1 - sint index)) s
         else Inl (Out_of_bounds Array_st))
      else
        (case pop s of
           Inl e \<Rightarrow> Inl e
         | Inr (v, s1) \<Rightarrow>
             if in_st (sp s1 + sint index) then Inr (s1\<lparr>st := (st s1)(sp s1 + sint index := v)\<rparr>)
             else Inl (Out_of_bounds Array_st)))"

text \<open>
  \<open>jmp\<close>: the cache \<open>jtbl\<close> is looked up at the current \<open>ip\<close> alone; otherwise the loop
  scans towards \<open>end\<close> in steps of \<open>inc\<close>, counting the nesting depth. The loop test is
  \<open>ip != end\<close>, so a scan that starts past its boundary never returns.
\<close>

partial_function (option) jmp_scan ::
  "(int \<Rightarrow> C) \<Rightarrow> C \<Rightarrow> C \<Rightarrow> P \<Rightarrow> P \<Rightarrow> P \<Rightarrow> int \<Rightarrow> (fatal + P) option" where
  [code]: "jmp_scan c open close inc e i depth =
     (if i \<noteq> e then
        (if nibble c i = open then jmp_scan c open close inc e (i + inc) (depth + 1)
         else if nibble c i = close then
           (if depth = 0 then Some (Inr (i + 1))
            else jmp_scan c open close inc e (i + inc) (depth - 1))
         else jmp_scan c open close inc e (i + inc) depth)
      else Some (Inl (Couldnt_match open)))"

definition jmp :: "C \<Rightarrow> C \<Rightarrow> P \<Rightarrow> P \<Rightarrow> b4 \<Rightarrow> (stop + b4) option" where
  "jmp open close inc e s =
     (let target = jtbl s (ip s) in
      if target \<noteq> BADIP then Some (Inr (s\<lparr>ip := target\<rparr>))
      else
        (case jmp_scan (code s) open close inc e (ip s) 0 of
           None \<Rightarrow> None
         | Some (Inl f) \<Rightarrow> Some (Inl (Exit f))
         | Some (Inr t) \<Rightarrow> Some (Inr (s\<lparr>jtbl := (jtbl s)(ip s := t), ip := t\<rparr>))))"

definition LJ :: "C \<Rightarrow> C \<Rightarrow> b4 \<Rightarrow> (stop + b4) option" where
  "LJ open close s =
     (if ra s \<noteq> 0 then jmp open close (- 1) (start s) (s\<lparr>ra := ra s - 1, ip := ip s - 2\<rparr>)
      else Some (Inr s))"

text \<open>
  The \<open>switch\<close> of \<open>exe\<close>, one instruction. In \<open>push(pop+pop)\<close> and \<open>push(pop-pop)\<close> the
  pops are taken from left to right and the push comes last, as the opcode table of
  b4.c says (\<open>pop X, pop Y, push X-Y\<close>) and as its example \<open>?-\<close> (negate) needs.
  \<open>C_RET\<close> leaves the loop and is handled in \<open>exe\<close>.
\<close>

definition exe_case :: "C \<Rightarrow> b4 \<Rightarrow> (stop + b4) option" where
  "exe_case c s =
     (if c = C_BCD then bcd s
      else if c = C_ADD then
        and_then (pop s) (\<lambda>(x, s1). and_then (pop s1) (\<lambda>(y, s2). Some (push (x + y) s2)))
      else if c = C_SUB then
        and_then (pop s) (\<lambda>(x, s1). and_then (pop s1) (\<lambda>(y, s2). Some (push (x - y) s2)))
      else if c = C_MUL then
        and_then (pop s) (\<lambda>(x, s1). and_then (pop s1) (\<lambda>(y, s2). Some (push (x * y) s2)))
      else if c = C_RWS then and_then (pop s) (\<lambda>(i, s1). Some (rw i s1))
      else if c = C_RDA then and_then (pop s) (\<lambda>(v, s1). Some (Inr (s1\<lparr>ra := v\<rparr>)))
      else if c = C_STA then Some (push (ra s) s)
      else if c = C_POP then and_then (pop s) (\<lambda>(v, s1). Some (Inr s1))
      else if c = C_SWP then
        and_then (pop s) (\<lambda>(a, s1). and_then (pop s1) (\<lambda>(b, s2).
          and_then (push a s2) (\<lambda>s3. Some (push b s3))))
      else if c = C_DFN then and_then (pop s) (\<lambda>(i, s1). Some (dfn i s1))
      else if c = C_RUN then and_then (pop s) (\<lambda>(i, s1). Some (run i s1))
      else if c = C_JAO then
        and_then (pop s) (\<lambda>(v, s1).
          if v = 0 then jmp C_JAO C_JAC 1 (endp s1) s1 else Some (Inr s1))
      else if c = C_JAC then LJ C_JAC C_JAO s
      else if c = C_JBO then
        and_then (pop s) (\<lambda>(v, s1).
          if v \<le>s 0 then jmp C_JBO C_JBC 1 (endp s1) s1 else Some (Inr s1))
      else if c = C_JBC then LJ C_JBC C_JBO s
      else Some (Inr s))"

partial_function (option) exe :: "b4 \<Rightarrow> (stop + b4) option" where
  [code]: "exe s =
     (if ip s < endp s then
        (let (c, s1) = rd s in
         if c AND 0xF = C_RET then Some (Inr s1)
         else
           (case exe_case (c AND 0xF) s1 of
              None \<Rightarrow> None
            | Some (Inl f) \<Rightarrow> Some (Inl f)
            | Some (Inr s2) \<Rightarrow> exe s2))
      else Some (Inr s))"

text \<open>
  \<open>frloop\<close>: after each \<open>exe\<close>, one frame is dropped; the last one ends the run.
  Otherwise the caller's position, range and register are read from \<open>fr[fp]\<close>
  (\<open>frame_pop\<close>).
\<close>

definition frame_pop :: "b4 \<Rightarrow> stop + b4" where
  "frame_pop s =
     (if in_fr (fp s) then
        Inr (s\<lparr>ip := f_ip (fr s (fp s)), start := f_start (fr s (fp s)),
          endp := f_end (fr s (fp s)), ra := f_ra (fr s (fp s))\<rparr>)
      else Inl (Out_of_bounds Array_fr))"

partial_function (option) frloop :: "b4 \<Rightarrow> (stop + b4) option" where
  [code]: "frloop s =
     (case exe s of
        None \<Rightarrow> None
      | Some (Inl f) \<Rightarrow> Some (Inl f)
      | Some (Inr s1) \<Rightarrow>
          (let s2 = s1\<lparr>fp := fp s1 - 1\<rparr> in
           if fp s2 = 0 then Some (Inr s2)
           else (case frame_pop s2 of
                   Inl e \<Rightarrow> Some (Inl e)
                 | Inr s3 \<Rightarrow> frloop s3)))"

section \<open>The assembler\<close>

text \<open>
  \<open>sym\<close>: the first index whose name equals \<open>name\<close>, or a new entry at the end of the
  table \<open>nm\<close> (whose length is \<open>np\<close>).
\<close>

fun sym_find :: "string list \<Rightarrow> string \<Rightarrow> nat \<Rightarrow> nat option" where
  "sym_find [] name i = None"
| "sym_find (x # xs) name i = (if x = name then Some i else sym_find xs name (i + 1))"

definition sym :: "string \<Rightarrow> string list \<Rightarrow> fatal + int \<times> string list" where
  "sym name nms =
     (case sym_find nms name 0 of
        Some i \<Rightarrow> Inr (int i, nms)
      | None \<Rightarrow>
          if length nms = MAXNP then Inl Name_table_overflow
          else Inr (int (length nms), nms @ [name]))"

text \<open>
  The character classes of \<open><ctype.h>\<close> in the C locale. The text is a C string: the
  character read at its end is the terminating NUL. A \<open>char\<close> passed as an \<open>int\<close> is
  signed.
\<close>

definition isalpha :: "char \<Rightarrow> bool" where
  "isalpha c = (let n = of_char c :: nat in (65 \<le> n \<and> n \<le> 90) \<or> (97 \<le> n \<and> n \<le> 122))"

definition isdigit :: "char \<Rightarrow> bool" where
  "isdigit c = (let n = of_char c :: nat in 48 \<le> n \<and> n \<le> 57)"

definition isalnum :: "char \<Rightarrow> bool" where
  "isalnum c = (isalpha c \<or> isdigit c)"

definition char_at :: "string \<Rightarrow> nat \<Rightarrow> char" where
  "char_at src p = (if p < length src then src ! p else CHR 0x00)"

definition char_int :: "char \<Rightarrow> int" where
  "char_int c = (let n = of_char c :: int in if n < 128 then n else n - 256)"

text \<open>The loop that collects an identifier into \<open>name\<close>; \<open>acc\<close> is what is stored so far.\<close>

function ident :: "string \<Rightarrow> nat \<Rightarrow> string \<Rightarrow> fatal + string \<times> nat" where
  "ident src p acc =
     (if isalnum (char_at src p) \<or> char_at src p = CHR ''_'' then
        (if length acc + 1 = MAXNM then Inl Name_too_long
         else ident src (p + 1) (acc @ [char_at src p]))
      else Inr (acc, p))"
  by pat_completeness auto
termination
proof (relation "measure (\<lambda>(src, p, acc). length src - p)")
  show "wf (measure (\<lambda>(src, p, acc). length src - p))" by simp
next
  fix src :: string and p :: nat and acc :: string
  assume "isalnum (char_at src p) \<or> char_at src p = CHR ''_''"
  then have "p < length src"
    by (auto simp: char_at_def isalnum_def isalpha_def isdigit_def split: if_splits)
  then show "((src, p + 1, acc @ [char_at src p]), src, p, acc)
      \<in> measure (\<lambda>(src, p, acc). length src - p)"
    by simp
qed

declare ident.simps [simp del]

text \<open>The body of a quoted string: one literal per character, a backslash skipped.\<close>

function quote :: "string \<Rightarrow> nat \<Rightarrow> (int \<Rightarrow> C) \<times> P \<Rightarrow> ((int \<Rightarrow> C) \<times> P) \<times> nat" where
  "quote src p qi =
     (if p < length src \<and> char_at src p \<noteq> CHR 0x27 then
        (let p1 = (if char_at src p = CHR 0x5C then p + 1 else p) in
         quote src (p1 + 1) (emitBCD (fst qi) (snd qi) (char_int (char_at src p1))))
      else (qi, p))"
  by pat_completeness auto
termination
  by (relation "measure (\<lambda>(src, p, qi). length src - p)") auto

declare quote.simps [simp del]

text \<open>The digits after the first one of a numeral.\<close>

function numeral_rest :: "string \<Rightarrow> nat \<Rightarrow> (int \<Rightarrow> C) \<times> P \<Rightarrow> ((int \<Rightarrow> C) \<times> P) \<times> nat" where
  "numeral_rest src p qi =
     (if isdigit (char_at src p) then
        numeral_rest src (p + 1) (emit (word_of_int (char_int (char_at src p) - 48)) qi)
      else (qi, p))"
  by pat_completeness auto
termination
proof (relation "measure (\<lambda>(src, p, qi). length src - p)")
  show "wf (measure (\<lambda>(src, p, qi). length src - p))" by simp
next
  fix src :: string and p :: nat and qi :: "(int \<Rightarrow> C) \<times> P"
  assume "isdigit (char_at src p)"
  then have "p < length src"
    by (auto simp: char_at_def isdigit_def split: if_splits)
  then show "((src, p + 1, emit (word_of_int (char_int (char_at src p) - 48)) qi), src, p, qi)
      \<in> measure (\<lambda>(src, p, qi). length src - p)"
    by simp
qed

declare numeral_rest.simps [simp del]

lemma ident_pos: "ident src p acc = Inr (name, p') \<Longrightarrow> p \<le> p'"
proof (induction src p acc rule: ident.induct)
  case (1 src p acc)
  show ?case
  proof (cases "isalnum (char_at src p) \<or> char_at src p = CHR ''_''")
    case True
    with "1.prems" have ne: "length acc + 1 \<noteq> MAXNM"
      by (subst (asm) ident.simps) (auto split: if_splits)
    with True "1.prems" have "ident src (p + 1) (acc @ [char_at src p]) = Inr (name, p')"
      by (subst (asm) ident.simps) (simp split: if_splits)
    with "1.IH" True ne have "p + 1 \<le> p'" by simp
    then show ?thesis by simp
  next
    case False
    with "1.prems" show ?thesis
      by (subst (asm) ident.simps) simp
  qed
qed

lemma quote_pos: "quote src p qi = (qi', p') \<Longrightarrow> p \<le> p'"
proof (induction src p qi rule: quote.induct)
  case (1 src p qi)
  show ?case
  proof (cases "p < length src \<and> char_at src p \<noteq> CHR 0x27")
    case True
    define p1 where "p1 = (if char_at src p = CHR 0x5C then p + 1 else p)"
    from True "1.prems" have
      "quote src (p1 + 1) (emitBCD (fst qi) (snd qi) (char_int (char_at src p1))) = (qi', p')"
      by (subst (asm) quote.simps) (simp add: p1_def Let_def)
    with "1.IH" True have "p1 + 1 \<le> p'" by (simp add: p1_def)
    then show ?thesis by (simp add: p1_def split: if_splits)
  next
    case False
    with "1.prems" show ?thesis
      by (subst (asm) quote.simps) auto
  qed
qed

lemma numeral_rest_pos: "numeral_rest src p qi = (qi', p') \<Longrightarrow> p \<le> p'"
proof (induction src p qi rule: numeral_rest.induct)
  case (1 src p qi)
  show ?case
  proof (cases "isdigit (char_at src p)")
    case True
    with "1.prems" have
      "numeral_rest src (p + 1) (emit (word_of_int (char_int (char_at src p) - 48)) qi) = (qi', p')"
      by (subst (asm) numeral_rest.simps) simp
    with "1.IH" True have "p + 1 \<le> p'" by simp
    then show ?thesis by simp
  next
    case False
    with "1.prems" show ?thesis
      by (subst (asm) numeral_rest.simps) simp
  qed
qed

text \<open>
  One turn of the \<open>while (p < end)\<close> loop of \<open>b4asmS\<close>, for the character at \<open>p\<close>. The
  result is the new position, the new value of the flag \<open>run\<close>, the name table and
  the buffer with its write position.
\<close>

definition b4asmS_step ::
  "string \<Rightarrow> nat \<Rightarrow> bool \<Rightarrow> string list \<Rightarrow> (int \<Rightarrow> C) \<times> P
    \<Rightarrow> fatal + nat \<times> bool \<times> string list \<times> ((int \<Rightarrow> C) \<times> P)" where
  "b4asmS_step src p0 runf nms qi =
     (let c = char_at src p0; p = p0 + 1 in
      if isalpha c \<or> c = CHR ''_'' then
        (case ident src p [c] of
           Inl e \<Rightarrow> Inl e
         | Inr (name, p2) \<Rightarrow>
             (case sym name nms of
                Inl e \<Rightarrow> Inl e
              | Inr (i, nms2) \<Rightarrow>
                  (let qi2 = emitBCD (fst qi) (snd qi) i
                   in Inr (p2, False, nms2, if runf then emit C_RUN qi2 else qi2))))
      else if c = CHR 0x27 then
        (case quote src p (emitBCD (fst qi) (snd qi) 0) of
           (qi2, p2) \<Rightarrow>
             if p2 = length src then Inl Unterminated_quote else Inr (p2 + 1, runf, nms, qi2))
      else if c = CHR '' '' \<or> c = CHR 0x0A then Inr (p, runf, nms, qi)
      else if isdigit c then
        (let b = char_int c - 48;
             qi1 = emit C_BCD qi;
             qi2 = (if b > 1 then emit (word_of_int b) qi1 else qi1)
         in case numeral_rest src p qi2 of
              (qi3, p3) \<Rightarrow> Inr (p3, runf, nms, emit (if b = 1 then 11 else 10) qi3))
      else if c = CHR ''+'' then Inr (p, runf, nms, emit C_ADD qi)
      else if c = CHR ''-'' then Inr (p, runf, nms, emit C_SUB qi)
      else if c = CHR ''*'' then Inr (p, runf, nms, emit C_MUL qi)
      else if c = CHR ''['' then Inr (p, runf, nms, emit C_JAO qi)
      else if c = CHR '']'' then Inr (p, runf, nms, emit C_JAC qi)
      else if c = CHR ''<'' then Inr (p, runf, nms, emit C_JBO qi)
      else if c = CHR ''>'' then Inr (p, runf, nms, emit C_JBC qi)
      else if c = CHR '':'' then Inr (p, runf, nms, emit C_DFN qi)
      else if c = CHR ''.'' then
        (if isalpha (char_at src p) \<or> char_at src p = CHR ''_'' then Inr (p, True, nms, qi)
         else Inr (p, runf, nms, emit C_RUN qi))
      else if c = CHR ''@'' then Inr (p, runf, nms, emit C_RET qi)
      else if c = CHR ''$'' then Inr (p, runf, nms, emit C_RWS qi)
      else if c = CHR ''!'' then Inr (p, runf, nms, emit C_POP qi)
      else if c = CHR '','' then Inr (p, runf, nms, emit C_SWP qi)
      else if c = CHR ''='' then Inr (p, runf, nms, emit C_RDA qi)
      else if c = CHR ''?'' then Inr (p, runf, nms, emit C_STA qi)
      else if c = CHR ''%'' then Inr (p, runf, nms, emit C_RWS (emit 10 (emit C_BCD qi)))
      else Inl (Bad_opcode c))"

lemma b4asmS_step_pos:
  assumes "b4asmS_step src p runf nms qi = Inr (p', run', nms', qi')"
  shows "p < p'"
proof -
  have id: "p < p2" if "ident src (Suc p) acc = Inr (name, p2)" for name p2 acc
    using ident_pos [OF that] by simp
  have qu: "p < p2" if "quote src (Suc p) qq = (qi2, p2)" for qi2 p2 qq
    using quote_pos [OF that] by simp
  have nu: "p < p3" if "numeral_rest src (Suc p) qq = (qi3, p3)" for qq qi3 p3
    using numeral_rest_pos [OF that] by simp
  from assms show ?thesis
    unfolding b4asmS_step_def Let_def
    by (auto split: if_splits sum.splits prod.splits dest: id qu nu less_SucI)
qed

function b4asmS ::
  "string \<Rightarrow> nat \<Rightarrow> bool \<Rightarrow> string list \<Rightarrow> (int \<Rightarrow> C) \<times> P
    \<Rightarrow> fatal + ((int \<Rightarrow> C) \<times> P) \<times> nat \<times> string list" where
  "b4asmS src p runf nms qi =
     (if p < length src then
        (case b4asmS_step src p runf nms qi of
           Inl e \<Rightarrow> Inl e
         | Inr (p', run', nms', qi') \<Rightarrow> b4asmS src p' run' nms' qi')
      else Inr (qi, p, nms))"
  by pat_completeness auto
termination
proof (relation "measure (\<lambda>(src, p, runf, nms, qi). length src - p)")
  show "wf (measure (\<lambda>(src, p, runf, nms, qi). length src - p))" by simp
next
  fix src :: string and p :: nat and runf :: bool and nms :: "string list"
    and qi :: "(int \<Rightarrow> C) \<times> P" and x2 x y xa ya xb yb
  assume "p < length src" and "b4asmS_step src p runf nms qi = Inr x2"
    and "(x, y) = x2" and "(xa, ya) = y" and "(xb, yb) = ya"
  then have "p < x" using b4asmS_step_pos [of src p runf nms qi x xa xb yb] by simp
  with \<open>p < length src\<close>
  show "((src, x, xa, xb, yb), src, p, runf, nms, qi)
      \<in> measure (\<lambda>(src, p, runf, nms, qi). length src - p)"
    by simp
qed

declare b4asmS.simps [simp del]

text \<open>
  \<open>b4asm\<close>: \<open>q0\<close> and \<open>r0\<close> are what the two fresh \<open>malloc\<close> blocks hold; the code is
  the first \<open>(ip+1)/2\<close> bytes of \<open>q\<close>, copied into \<open>r\<close>.
\<close>

definition b4asm ::
  "(int \<Rightarrow> C) \<Rightarrow> (int \<Rightarrow> C) \<Rightarrow> string list \<Rightarrow> string
    \<Rightarrow> fatal + P \<times> (int \<Rightarrow> C) \<times> string list" where
  "b4asm q0 r0 nms statement =
     (case b4asmS statement 0 False nms (q0, 0) of
        Inl e \<Rightarrow> Inl e
      | Inr ((q, i), p, nms') \<Rightarrow>
          (let sz = (i + 1) sdiv 2
           in Inr (i, (\<lambda>k. if 0 \<le> k \<and> k < sz then q k else r0 k), nms')))"

definition init :: "b4 \<Rightarrow> fatal + b4" where
  "init s =
     (case sym ''top'' (nm s) of Inl e \<Rightarrow> Inl e | Inr (i1, n1) \<Rightarrow>
     (case sym ''say'' n1 of Inl e \<Rightarrow> Inl e | Inr (i2, n2) \<Rightarrow>
     (case sym ''hlt'' n2 of Inl e \<Rightarrow> Inl e | Inr (i3, n3) \<Rightarrow>
     (case sym ''_entry'' n3 of Inl e \<Rightarrow> Inl e | Inr (i4, n4) \<Rightarrow>
        Inr (s\<lparr>nm := n4, ready := True\<rparr>)))))"

text \<open>
  \<open>b4cmd\<close>: assemble, clear the first \<open>csz\<close> cells of the fresh branch cache (\<open>j0\<close> is
  what \<open>malloc\<close> returned), bind \<open>_entry\<close> to the whole code and call it
  (\<open>b4cmd_setup\<close>), then run the frame loop. The final \<open>free\<close> calls are left out.
\<close>

definition b4cmd_setup ::
  "(int \<Rightarrow> C) \<Rightarrow> (int \<Rightarrow> C) \<Rightarrow> (int \<Rightarrow> P) \<Rightarrow> string \<Rightarrow> b4 \<Rightarrow> stop + b4" where
  "b4cmd_setup q0 r0 j0 command s =
     (case (if ready s then Inr s else init s) of
        Inl e \<Rightarrow> Inl (Exit e)
      | Inr s1 \<Rightarrow>
     (case b4asm q0 r0 (nm s1) command of
        Inl e \<Rightarrow> Inl (Exit e)
      | Inr (csz, cd, nms) \<Rightarrow>
     (let s2 = s1\<lparr>nm := nms, code := cd,
                 out := out s1 @ [Printf_code_size ((csz + 1) sdiv 2)],
                 jtbl := (\<lambda>i. if 0 \<le> i \<and> i < csz then BADIP else j0 i)\<rparr>
      in case sym ''_entry'' (nm s2) of
        Inl e \<Rightarrow> Inl (Exit e)
      | Inr (entry, nms3) \<Rightarrow>
          if in_fn entry then
            (let s3 = s2\<lparr>nm := nms3, fn := (fn s2)(entry := \<lparr>fn_start = 0, fn_end = csz\<rparr>)\<rparr>
             in run (word_of_int entry) s3)
          else Inl (Out_of_bounds Array_fn))))"

definition b4cmd ::
  "(int \<Rightarrow> C) \<Rightarrow> (int \<Rightarrow> C) \<Rightarrow> (int \<Rightarrow> P) \<Rightarrow> string \<Rightarrow> b4 \<Rightarrow> (stop + b4) option" where
  "b4cmd q0 r0 j0 command s =
     (case b4cmd_setup q0 r0 j0 command s of
        Inl e \<Rightarrow> Some (Inl e)
      | Inr s4 \<Rightarrow> frloop s4)"

text \<open>The machine before the first command: every static object of b4.c is zero.\<close>

definition b4_zero :: b4 where
  "b4_zero = \<lparr>st = (\<lambda>i. 0), sp = 0, fp = 0,
     fr = (\<lambda>i. \<lparr>f_start = 0, f_end = 0, f_ip = 0, f_ra = 0\<rparr>),
     fn = (\<lambda>i. \<lparr>fn_start = 0, fn_end = 0\<rparr>),
     nm = [], code = (\<lambda>i. 0), jtbl = (\<lambda>i. 0), ip = 0, start = 0, endp = 0, ra = 0,
     ready = False, out = []\<rparr>"

text \<open>The operand stack, bottom first: the cells below \<open>sp\<close>.\<close>

definition stack :: "b4 \<Rightarrow> T list" where
  "stack s = map (st s) [0..sp s - 1]"

section \<open>The interpreter without cache reuse\<close>

text \<open>
  For the comparison of a run that reuses cached jump targets with one that computes
  each target by a fresh structural scan: \<open>jmp_fresh\<close> is \<open>jmp\<close> with the cache entry of
  the current position forgotten, so the scan always runs. The \<open>_fresh\<close> interpreter
  is the interpreter above with \<open>jmp_fresh\<close> in the four bracket instructions.
\<close>

definition jmp_fresh :: "C \<Rightarrow> C \<Rightarrow> P \<Rightarrow> P \<Rightarrow> b4 \<Rightarrow> (stop + b4) option" where
  "jmp_fresh open close inc e s = jmp open close inc e (s\<lparr>jtbl := (jtbl s)(ip s := BADIP)\<rparr>)"

definition LJ_fresh :: "C \<Rightarrow> C \<Rightarrow> b4 \<Rightarrow> (stop + b4) option" where
  "LJ_fresh open close s =
     (if ra s \<noteq> 0
      then jmp_fresh open close (- 1) (start s) (s\<lparr>ra := ra s - 1, ip := ip s - 2\<rparr>)
      else Some (Inr s))"

definition exe_case_fresh :: "C \<Rightarrow> b4 \<Rightarrow> (stop + b4) option" where
  "exe_case_fresh c s =
     (if c = C_JAO then
        and_then (pop s) (\<lambda>(v, s1).
          if v = 0 then jmp_fresh C_JAO C_JAC 1 (endp s1) s1 else Some (Inr s1))
      else if c = C_JAC then LJ_fresh C_JAC C_JAO s
      else if c = C_JBO then
        and_then (pop s) (\<lambda>(v, s1).
          if v \<le>s 0 then jmp_fresh C_JBO C_JBC 1 (endp s1) s1 else Some (Inr s1))
      else if c = C_JBC then LJ_fresh C_JBC C_JBO s
      else exe_case c s)"

partial_function (option) exe_fresh :: "b4 \<Rightarrow> (stop + b4) option" where
  [code]: "exe_fresh s =
     (if ip s < endp s then
        (let (c, s1) = rd s in
         if c AND 0xF = C_RET then Some (Inr s1)
         else
           (case exe_case_fresh (c AND 0xF) s1 of
              None \<Rightarrow> None
            | Some (Inl f) \<Rightarrow> Some (Inl f)
            | Some (Inr s2) \<Rightarrow> exe_fresh s2))
      else Some (Inr s))"

partial_function (option) frloop_fresh :: "b4 \<Rightarrow> (stop + b4) option" where
  [code]: "frloop_fresh s =
     (case exe_fresh s of
        None \<Rightarrow> None
      | Some (Inl f) \<Rightarrow> Some (Inl f)
      | Some (Inr s1) \<Rightarrow>
          (let s2 = s1\<lparr>fp := fp s1 - 1\<rparr> in
           if fp s2 = 0 then Some (Inr s2)
           else (case frame_pop s2 of
                   Inl e \<Rightarrow> Some (Inl e)
                 | Inr s3 \<Rightarrow> frloop_fresh s3)))"

definition b4cmd_fresh ::
  "(int \<Rightarrow> C) \<Rightarrow> (int \<Rightarrow> C) \<Rightarrow> (int \<Rightarrow> P) \<Rightarrow> string \<Rightarrow> b4 \<Rightarrow> (stop + b4) option" where
  "b4cmd_fresh q0 r0 j0 command s =
     (case b4cmd_setup q0 r0 j0 command s of
        Inl e \<Rightarrow> Some (Inl e)
      | Inr s4 \<Rightarrow> frloop_fresh s4)"

text \<open>A memory block of zeros, for the blocks that \<open>malloc\<close> hands out in concrete runs.\<close>

definition zeros :: "int \<Rightarrow> 'a::zero" where
  "zeros = (\<lambda>i. 0)"

text \<open>
  \<open>emit\<close> can write at \<open>(q, i)\<close> when the position is not negative and, for an odd one,
  the high half of its byte is still zero, as \<open>emit\<close> at the even position before left
  it (an odd \<open>emit\<close> ors its code into that half).
\<close>

definition emit_ready :: "(int \<Rightarrow> C) \<times> P \<Rightarrow> bool" where
  "emit_ready qi = (0 \<le> snd qi \<and> (even (snd qi) \<or> drop_bit 4 (fst qi (snd qi sdiv 2)) = 0))"

text \<open>The nibbles that \<open>emitBCD q i v\<close> leaves in the buffer, from \<open>i\<close> to the new position.\<close>

definition emitted :: "(int \<Rightarrow> C) \<Rightarrow> P \<Rightarrow> int \<Rightarrow> C list" where
  "emitted q i v = (case emitBCD q i v of (q', i') \<Rightarrow> map (nibble q') [i..i' - 1])"

text \<open>The codes that \<open>emitBCD\<close> hands to \<open>emit\<close>, in order.\<close>

definition bcd_codes :: "int \<Rightarrow> C list" where
  "bcd_codes v =
     (let n = digits v; b = last n
      in [C_BCD] @ (if b > 1 then [word_of_int b] else []) @ map word_of_int (rev (butlast n))
         @ [if b = 1 then 11 else 10])"

text \<open>The number that a list of decimal digits stands for, least significant digit first.\<close>

fun dval :: "int list \<Rightarrow> int" where
  "dval [] = 0"
| "dval (d # ds) = d + 10 * dval ds"

text \<open>The name table after \<open>init\<close>, and what a finished run shows: stack, register, output.\<close>

definition init_names :: "string list" where
  "init_names = [''top'', ''say'', ''hlt'', ''_entry'']"

definition observable :: "b4 \<Rightarrow> T list \<times> T \<times> outp list" where
  "observable s = (stack s, ra s, out s)"

text \<open>The nibbles of the code that \<open>b4asm\<close> produces for a text, in empty memory.\<close>

definition asm_nibbles :: "string \<Rightarrow> fatal + C list" where
  "asm_nibbles src =
     (case b4asm zeros zeros init_names src of
        Inl e \<Rightarrow> Inl e
      | Inr (n, c, nms) \<Rightarrow> Inr (map (nibble c) [0..n - 1]))"

text \<open>
  How many values an instruction takes off the stack in a state; an index-store (\<open>C_RWS\<close>
  with a negative index on top) takes two.
\<close>

definition pops :: "C \<Rightarrow> b4 \<Rightarrow> int" where
  "pops c s =
     (if c = C_ADD \<or> c = C_SUB \<or> c = C_MUL \<or> c = C_SWP then 2
      else if c = C_RWS then (if 0 \<le>s st s (sp s - 1) then 1 else 2)
      else if c = C_RDA \<or> c = C_POP \<or> c = C_DFN \<or> c = C_RUN \<or> c = C_JAO \<or> c = C_JBO then 1
      else 0)"

text \<open>
  The reading of a code range as a sequence of instructions, for the function-terminator
  scan: \<open>instr_at c e i k\<close> says that, reading the range that ends at \<open>e\<close> from position
  \<open>i\<close> on, position \<open>k\<close> is where an instruction starts (so \<open>k\<close> does not lie inside a
  literal), and that no instruction before \<open>k\<close> is \<open>C_DFN\<close>. A literal runs from its
  \<open>C_BCD\<close> code to the first terminator code after it; every other instruction is one
  nibble.
\<close>

inductive instr_at :: "(int \<Rightarrow> C) \<Rightarrow> P \<Rightarrow> P \<Rightarrow> P \<Rightarrow> bool" for c e i where
  first: "instr_at c e i i"
| literal: "instr_at c e i k \<Longrightarrow> k < e \<Longrightarrow> nibble c k = C_BCD \<Longrightarrow> k \<le> t \<Longrightarrow> t < e
    \<Longrightarrow> nibble c t = BCD_N \<or> nibble c t = BCD_P
    \<Longrightarrow> (\<forall>j. k \<le> j \<and> j < t \<longrightarrow> nibble c j \<noteq> BCD_N \<and> nibble c j \<noteq> BCD_P)
    \<Longrightarrow> instr_at c e i (t + 1)"
| other: "instr_at c e i k \<Longrightarrow> k < e \<Longrightarrow> nibble c k \<noteq> C_BCD \<Longrightarrow> nibble c k \<noteq> C_DFN
    \<Longrightarrow> instr_at c e i (k + 1)"

text \<open>
  \<open>returns_to k s u\<close>: the frame loop, started in state \<open>s\<close>, comes back to frame depth
  \<open>k\<close> in state \<open>u\<close>. Each step is one turn of \<open>frloop\<close>: \<open>exe\<close> returns a state (it
  neither exits nor indexes \<open>st\<close>, \<open>fr\<close> or \<open>fn\<close> outside the bounds), \<open>fp\<close> is decremented
  and the frame at the new \<open>fp\<close>, an index of \<open>fr\<close>, is restored; \<open>u\<close> is the state after
  the first turn that leaves \<open>fp = k\<close>.
\<close>

inductive returns_to :: "int \<Rightarrow> b4 \<Rightarrow> b4 \<Rightarrow> bool" for k where
  here: "exe s = Some (Inr s1) \<Longrightarrow> fp s1 - 1 = k \<Longrightarrow> k \<noteq> 0
    \<Longrightarrow> frame_pop (s1\<lparr>fp := fp s1 - 1\<rparr>) = Inr u \<Longrightarrow> returns_to k s u"
| deeper: "exe s = Some (Inr s1) \<Longrightarrow> fp s1 - 1 \<noteq> k \<Longrightarrow> fp s1 - 1 \<noteq> 0
    \<Longrightarrow> frame_pop (s1\<lparr>fp := fp s1 - 1\<rparr>) = Inr s2 \<Longrightarrow> returns_to k s2 u
    \<Longrightarrow> returns_to k s u"

text \<open>
  The machine of the text \<open>dbl:%+:5=3 dbl.\<close> at its call instruction, the id popped:
  the body of \<open>dbl\<close> (id 4) is the range from 4 to 8, the stack holds 3, the register 5.
\<close>

definition dbl_call :: b4 where
  "dbl_call = b4_zero\<lparr>
     st := (st b4_zero)(0 := 3), sp := 1, fp := 1,
     fn := (fn b4_zero)(4 := \<lparr>fn_start = 4, fn_end = 8\<rparr>),
     code := fst (fold emit [0, 4, 10, 9, 0, 10, 4, 1, 9, 0, 5, 10, 5, 0, 3, 10, 0, 4, 10, 10] (zeros, 0)),
     ip := 20, endp := 20, ra := 5\<rparr>"

text \<open>
  The branch cache is indexed by the position at which \<open>jmp\<close> is entered: the position
  after an opening bracket, for a forward jump, and the position before a closing
  bracket, for a backward one. \<open>no_shared_key c\<close>: in the code \<open>c\<close> no opening bracket
  stands two nibbles before a closing bracket, so that no position is the cache key of
  both. \<open>cache_ok c j\<close>: each filled entry of the cache \<open>j\<close> is the target that the scan of
  the bracket instruction standing at that key finds, for some boundary.
\<close>

definition no_shared_key :: "(int \<Rightarrow> C) \<Rightarrow> bool" where
  "no_shared_key c =
     (\<forall>k. \<not> ((nibble c (k - 1) = C_JAO \<or> nibble c (k - 1) = C_JBO)
              \<and> (nibble c (k + 1) = C_JAC \<or> nibble c (k + 1) = C_JBC)))"

definition cache_ok :: "(int \<Rightarrow> C) \<Rightarrow> (int \<Rightarrow> P) \<Rightarrow> bool" where
  "cache_ok c j =
     (\<forall>k. j k \<noteq> BADIP \<longrightarrow>
        (nibble c (k - 1) = C_JAO \<longrightarrow> (\<exists>e. jmp_scan c C_JAO C_JAC 1 e k 0 = Some (Inr (j k))))
      \<and> (nibble c (k - 1) = C_JBO \<longrightarrow> (\<exists>e. jmp_scan c C_JBO C_JBC 1 e k 0 = Some (Inr (j k))))
      \<and> (nibble c (k + 1) = C_JAC \<longrightarrow> (\<exists>e. jmp_scan c C_JAC C_JAO (- 1) e k 0 = Some (Inr (j k))))
      \<and> (nibble c (k + 1) = C_JBC \<longrightarrow> (\<exists>e. jmp_scan c C_JBC C_JBO (- 1) e k 0 = Some (Inr (j k)))))"

text \<open>
  A state with another branch cache, and the jump parameters that the bracket
  instruction standing at a cache key \<open>k\<close> of the code \<open>c\<close> hands to \<open>jmp\<close>.
\<close>

definition with_cache :: "(int \<Rightarrow> P) \<Rightarrow> b4 \<Rightarrow> b4" where
  "with_cache j s = s\<lparr>jtbl := j\<rparr>"

definition at_key :: "(int \<Rightarrow> C) \<Rightarrow> P \<Rightarrow> C \<Rightarrow> C \<Rightarrow> P \<Rightarrow> bool" where
  "at_key c k opn cls inc =
     (inc = 1 \<and> opn = C_JAO \<and> cls = C_JAC \<and> nibble c (k - 1) = C_JAO
      \<or> inc = 1 \<and> opn = C_JBO \<and> cls = C_JBC \<and> nibble c (k - 1) = C_JBO
      \<or> inc = - 1 \<and> opn = C_JAC \<and> cls = C_JAO \<and> nibble c (k + 1) = C_JAC
      \<or> inc = - 1 \<and> opn = C_JBC \<and> cls = C_JBO \<and> nibble c (k + 1) = C_JBC)"

text \<open>An empty branch cache, and the state that \<open>b4cmd\<close> sets up for the loop \<open>2=1[?!]\<close>.\<close>

definition cold :: "int \<Rightarrow> P" where
  "cold = (\<lambda>i. BADIP)"

definition loop_start :: b4 where
  "loop_start =
     (case b4cmd_setup zeros zeros cold ''2=1[?!]'' b4_zero of
        Inr s \<Rightarrow> s
      | Inl e \<Rightarrow> b4_zero)"

text \<open>The result of a run with another branch cache in its final state.\<close>

definition result_with_cache :: "(int \<Rightarrow> P) \<Rightarrow> stop + b4 \<Rightarrow> stop + b4" where
  "result_with_cache j r = (case r of Inl f \<Rightarrow> Inl f | Inr t \<Rightarrow> Inr (with_cache j t))"

section \<open>Evaluation of concrete runs\<close>

text \<open>The defining equations, as rewrite rules for running the machine on a given text.\<close>

lemmas b4_eval =
  b4cmd_def b4cmd_fresh_def b4cmd_setup_def init_def sym_def b4asm_def b4asmS.simps
  b4asmS_step_def ident.simps quote.simps numeral_rest.simps emitBCD_def emit_def digits.simps
  char_at_def char_int_def isalpha_def isdigit_def isalnum_def Let_def
  run_def swi_def frloop.simps exe.simps exe_case_def rd_def nibble_def bcd_def bcd_loop.simps
  push_def pop_def top'_def dfn_def dfn_close_def dfn_close_loop.simps skip_bcd.simps rw_def
  jmp_def jmp_scan.simps LJ_def frame_pop_def b4_zero_def stack_def zeros_def
  signed_divide_int_def signed_modulo_int_def upto.simps say_scan.simps
  jmp_fresh_def LJ_fresh_def exe_case_fresh_def exe_fresh.simps frloop_fresh.simps
  init_names_def observable_def asm_nibbles_def cold_def
  in_st_def in_fr_def in_fn_def and_then_def

section \<open>Nibbles of the buffer\<close>

lemma sdiv2_nonneg: "0 \<le> i \<Longrightarrow> i sdiv 2 = i div (2::int)"
  by (cases "i = 0") (simp_all add: signed_divide_int_def)

lemma mask4: "(0xF :: C) = mask 4"
  by (simp add: mask_eq_exp_minus_1)

lemma lt16_iff_bits: "c < 16 \<longleftrightarrow> (\<forall>n. bit c n \<longrightarrow> n < 4)" for c :: C
proof -
  have "c < 16 \<longleftrightarrow> c AND mask 4 = c"
    using mask_eq_iff_w2p [of 4 c] by (simp add: word_size)
  also have "\<dots> \<longleftrightarrow> (\<forall>n. bit c n \<longrightarrow> n < 4)"
  proof
    assume a: "c AND mask 4 = c"
    show "\<forall>n. bit c n \<longrightarrow> n < 4"
    proof (intro allI impI)
      fix n assume "bit c n"
      with a have "bit (c AND mask 4) n" by simp
      then show "n < 4" by (simp add: bit_simps)
    qed
  next
    assume "\<forall>n. bit c n \<longrightarrow> n < 4"
    then show "c AND mask 4 = c" by (auto simp add: bit_eq_iff bit_simps)
  qed
  finally show ?thesis .
qed

lemma low_or_push: "(x OR push_bit 4 c) AND 0xF = x AND (0xF :: C)"
  unfolding mask4 by (auto simp add: bit_eq_iff bit_simps) 

lemma and15_small: "c < 16 \<Longrightarrow> c AND 0xF = (c :: C)"
  unfolding mask4 lt16_iff_bits by (auto simp add: bit_eq_iff bit_simps)

lemma and15_lt16: "c AND 0xF < (16 :: C)"
  unfolding mask4 lt16_iff_bits by (auto simp add: bit_simps)

lemma drop4_lt16: "drop_bit 4 c < (16 :: C)"
  unfolding lt16_iff_bits by (auto simp add: bit_simps dest: bit_imp_le_length)

lemma drop4_small: "c < 16 \<Longrightarrow> drop_bit 4 c = (0 :: C)"
  unfolding lt16_iff_bits by (auto simp add: bit_eq_iff bit_simps)

lemma high_or_push: "c < 16 \<Longrightarrow> drop_bit 4 x = 0 \<Longrightarrow> drop_bit 4 (x OR push_bit 4 c) = (c :: C)"
  unfolding lt16_iff_bits by (auto simp add: bit_eq_iff bit_simps)

lemma nibble_lt16: "nibble q i < 16"
  by (simp add: nibble_def and15_lt16 drop4_lt16)

lemma snd_emit: "snd (emit c (q, i)) = i + 1"
  by (simp add: emit_def)

lemma drop_push4: "c < 16 \<Longrightarrow> drop_bit 4 (push_bit 4 c) = (c :: C)"
  using high_or_push [of c 0] by simp

lemma nibble_emit_same:
  assumes "emit_ready (q, i)" and "c < 16"
  shows "nibble (fst (emit c (q, i))) i = c"
proof (cases "odd i")
  case True
  with assms(1) have "drop_bit 4 (q (i sdiv 2)) = 0" by (simp add: emit_ready_def)
  with True assms(2) show ?thesis
    by (simp add: emit_def nibble_def drop_push4)
next
  case False
  with assms(2) show ?thesis
    by (simp add: emit_def nibble_def and15_small)
qed

lemma nibble_emit_below:
  assumes "0 \<le> j" and "j < i"
  shows "nibble (fst (emit c (q, i))) j = nibble q j"
proof -
  from assms have i: "i sdiv 2 = i div 2" and j: "j sdiv 2 = j div 2"
    by (simp_all add: sdiv2_nonneg)
  show ?thesis
  proof (cases "odd i")
    case True
    show ?thesis
    proof (cases "j div 2 = i div 2")
      case same: True
      with True assms have "even j" by presburger
      with True same show ?thesis
        by (simp add: emit_def nibble_def i j low_or_push)
    next
      case False
      with True show ?thesis
        by (simp add: emit_def nibble_def i j)
    qed
  next
    case False
    with assms have "j div 2 \<noteq> i div 2" by presburger
    with False show ?thesis
      by (simp add: emit_def nibble_def i j)
  qed
qed

lemma emit_ready_emit:
  assumes "emit_ready (q, i)" and "c < 16"
  shows "emit_ready (emit c (q, i))"
proof (cases "odd i")
  case True
  with assms(1) show ?thesis by (simp add: emit_ready_def emit_def)
next
  case False
  from assms(1) have "0 \<le> i" by (simp add: emit_ready_def)
  then have "(i + 1) sdiv 2 = (i + 1) div 2" "i sdiv 2 = i div 2"
    by (simp_all add: sdiv2_nonneg)
  moreover from False have "(i + 1) div 2 = i div 2" by presburger
  ultimately show ?thesis
    using False assms \<open>0 \<le> i\<close> by (simp add: emit_ready_def emit_def drop4_small)
qed

lemma fold_emit_all:
  assumes "emit_ready (q, i)" and "\<forall>c\<in>set cs. c < 16"
  shows "snd (fold emit cs (q, i)) = i + int (length cs)
    \<and> emit_ready (fold emit cs (q, i))
    \<and> (\<forall>j. 0 \<le> j \<and> j < i \<longrightarrow> nibble (fst (fold emit cs (q, i))) j = nibble q j)
    \<and> (\<forall>k<length cs. nibble (fst (fold emit cs (q, i))) (i + int k) = cs ! k)"
  using assms
proof (induction cs arbitrary: q i)
  case Nil
  then show ?case by simp
next
  case (Cons c cs)
  from Cons.prems have c: "c < 16" and cs: "\<forall>c\<in>set cs. c < 16" and i0: "0 \<le> i"
    by (simp_all add: emit_ready_def)
  obtain q' where q': "emit c (q, i) = (q', i + 1)"
    by (metis prod.collapse snd_emit)
  from emit_ready_emit [OF Cons.prems(1) c] q' have r: "emit_ready (q', i + 1)" by simp
  note IH = Cons.IH [OF r cs]
  let ?f = "fold emit cs (q', i + 1)"
  have f: "fold emit (c # cs) (q, i) = ?f" using q' by simp
  have below: "nibble q' j = nibble q j" if "0 \<le> j" "j < i" for j
    using nibble_emit_below [OF that, of c q] q' by simp
  have same: "nibble q' i = c"
    using nibble_emit_same [OF Cons.prems(1) c] q' by simp
  have 1: "snd ?f = i + int (length (c # cs))" using IH by simp
  have 2: "emit_ready ?f" using IH by simp
  have 3: "nibble (fst ?f) j = nibble q j" if "0 \<le> j" "j < i" for j
  proof -
    from IH that have "nibble (fst ?f) j = nibble q' j" by simp
    with below [OF that] show ?thesis by simp
  qed
  have 4: "nibble (fst ?f) (i + int k) = (c # cs) ! k" if "k < length (c # cs)" for k
  proof (cases k)
    case 0
    from IH i0 have "nibble (fst ?f) i = nibble q' i" by simp
    with same 0 show ?thesis by simp
  next
    case (Suc k')
    with that have "k' < length cs" by simp
    with IH have "nibble (fst ?f) (i + 1 + int k') = cs ! k'" by blast
    then show ?thesis using Suc by (simp add: add.commute add.left_commute)
  qed
  from 1 2 3 4 show ?case unfolding f by blast
qed

lemma map_nibble_fold_emit:
  assumes "emit_ready (q, i)" and "\<forall>c\<in>set cs. c < 16"
  shows "map (nibble (fst (fold emit cs (q, i)))) [i..snd (fold emit cs (q, i)) - 1] = cs"
proof -
  let ?f = "fold emit cs (q, i)"
  from fold_emit_all [OF assms] have len: "snd ?f = i + int (length cs)"
    and nth: "\<And>k. k < length cs \<Longrightarrow> nibble (fst ?f) (i + int k) = cs ! k"
    by blast+
  show ?thesis
  proof (rule nth_equalityI)
    show "length (map (nibble (fst ?f)) [i..snd ?f - 1]) = length cs"
      using len by simp
  next
    fix k assume "k < length (map (nibble (fst ?f)) [i..snd ?f - 1])"
    then have k: "k < length cs" using len by simp
    then have "[i..snd ?f - 1] ! k = i + int k" using len by simp
    with k nth [OF k] len show "map (nibble (fst ?f)) [i..snd ?f - 1] ! k = cs ! k"
      by simp
  qed
qed

lemma emitBCD_fold: "emitBCD q i v = fold emit (bcd_codes v) (q, i)"
  by (simp add: emitBCD_def bcd_codes_def Let_def fold_map comp_def)

section \<open>Decimal digits and the decoding loop\<close>

lemma digits_nonneg:
  assumes "0 \<le> v"
  shows "digits v = (v mod 10) # (if v div 10 \<noteq> 0 then digits (v div 10) else [])"
proof -
  from assms have "v smod 10 = v mod 10" "v sdiv 10 = v div 10"
    by (cases "v = 0"; simp add: signed_modulo_int_def signed_divide_int_def)+
  then show ?thesis by (subst digits.simps) simp
qed

lemma digits_not_Nil: "digits v \<noteq> []"
  by (subst digits.simps) simp

lemma digits_range: "0 \<le> v \<Longrightarrow> d \<in> set (digits v) \<Longrightarrow> 0 \<le> d \<and> d \<le> 9"
proof (induction v rule: digits.induct)
  case (1 v)
  have step: "digits v = (v mod 10) # (if v div 10 \<noteq> 0 then digits (v div 10) else [])"
    using "1.prems"(1) by (rule digits_nonneg)
  show ?case
  proof (cases "d = v mod 10")
    case True
    then show ?thesis by simp
  next
    case False
    with "1.prems"(2) step have ne: "v div 10 \<noteq> 0" and d: "d \<in> set (digits (v div 10))"
      by (auto split: if_splits)
    from "1.prems"(1) have sd: "v sdiv 10 = v div 10"
      by (cases "v = 0") (simp_all add: signed_divide_int_def)
    from "1.prems"(1) have "0 \<le> v div 10" by simp
    with "1.IH" ne sd d show ?thesis by simp
  qed
qed

lemma dval_digits: "0 \<le> v \<Longrightarrow> dval (digits v) = v"
proof (induction v rule: digits.induct)
  case (1 v)
  have step: "digits v = (v mod 10) # (if v div 10 \<noteq> 0 then digits (v div 10) else [])"
    using "1.prems" by (rule digits_nonneg)
  from "1.prems" have sd: "v sdiv 10 = v div 10"
    by (cases "v = 0") (simp_all add: signed_divide_int_def)
  show ?case
  proof (cases "v div 10 = 0")
    case True
    with step show ?thesis by simp
  next
    case False
    from "1.prems" have "0 \<le> v div 10" by simp
    with "1.IH" False sd have "dval (digits (v div 10)) = v div 10" by simp
    with step False show ?thesis by simp
  qed
qed

lemma dval_append: "dval (xs @ ys) = dval xs + 10 ^ length xs * dval ys"
  by (induction xs) (simp_all add: algebra_simps)

lemma foldl_rev_dval:
  "foldl (\<lambda>a d. a * 10 + d) a (rev xs) = a * 10 ^ length xs + dval xs"
  by (induction xs arbitrary: a) (simp_all add: algebra_simps)

lemma digit_cases:
  assumes "0 \<le> d" "d \<le> 9"
  shows "d = 0 \<or> d = 1 \<or> d = 2 \<or> d = 3 \<or> d = 4 \<or> d = 5 \<or> d = 6 \<or> d = 7 \<or> d = 8 \<or> d = (9::int)"
  using assms by arith

lemma ucast_digit: "0 \<le> d \<Longrightarrow> d \<le> 9 \<Longrightarrow> (ucast (word_of_int d :: C) :: T) = word_of_int d"
  using digit_cases [of d] by auto

lemma digit_code_le9: "0 \<le> d \<Longrightarrow> d \<le> 9 \<Longrightarrow> (word_of_int d :: C) \<le> 9"
  using digit_cases [of d] by auto

lemma foldl_word_digits:
  assumes "\<forall>d\<in>set xs. 0 \<le> d \<and> d \<le> 9"
  shows "foldl (\<lambda>a d. a * 10 + ucast d) (word_of_int a :: T) (map word_of_int xs :: C list)
    = word_of_int (foldl (\<lambda>a d. a * 10 + d) a xs)"
  using assms
proof (induction xs arbitrary: a)
  case Nil
  show ?case by simp
next
  case (Cons d xs)
  then have d: "0 \<le> d" "d \<le> 9" and xs: "\<forall>d\<in>set xs. 0 \<le> d \<and> d \<le> 9" by simp_all
  have "(word_of_int a :: T) * 10 + ucast (word_of_int d :: C) = word_of_int (a * 10 + d)"
    by (simp add: ucast_digit [OF d])
  with Cons.IH [OF xs, of "a * 10 + d"] show ?case by simp
qed

lemma bcd_loop_digits:
  assumes "\<forall>k<length ds. nibble c (i + int k) = ds ! k"
    and "\<forall>d\<in>set ds. d \<le> 9"
    and "nibble c (i + int (length ds)) = t"
    and "t = BCD_N \<or> t = BCD_P"
  shows "bcd_loop c v b i =
    Some (Inr (foldl (\<lambda>a d. a * 10 + ucast d) v ds
                + b * 10 ^ length ds * (if t = BCD_P then 1 else 0),
               i + int (length ds) + 1))"
  using assms
proof (induction ds arbitrary: v b i)
  case Nil
  then have "nibble c i = t" by simp
  with Nil.prems(4) show ?case
    by (subst bcd_loop.simps) auto
next
  case (Cons d ds)
  from Cons.prems(1) have d: "nibble c i = d" by auto
  from Cons.prems(2) have d9: "d \<le> 9" and ds9: "\<forall>d\<in>set ds. d \<le> 9" by simp_all
  then have "d < 16" by (simp add: word_less_def word_le_def)
  then have dand: "d AND 0xF = d" by (rule and15_small)
  have nth: "\<forall>k<length ds. nibble c (i + 1 + int k) = ds ! k"
  proof (intro allI impI)
    fix k assume "k < length ds"
    then have "Suc k < length (d # ds)" by simp
    with Cons.prems(1) have "nibble c (i + int (Suc k)) = (d # ds) ! Suc k" by blast
    then show "nibble c (i + 1 + int k) = ds ! k" by (simp add: add.assoc)
  qed
  from Cons.prems(3) have t: "nibble c (i + 1 + int (length ds)) = t"
    by (simp add: add.assoc)
  have "bcd_loop c v b i = bcd_loop c (v * 10 + ucast d) (b * 10) (i + 1)"
    using d dand d9 by (subst bcd_loop.simps) simp
  also note Cons.IH [OF nth ds9 t Cons.prems(4), of "v * 10 + ucast d" "b * 10"]
  finally show ?case by (simp add: algebra_simps)
qed

lemma bcd_codes_le11:
  assumes "0 \<le> v" and "c \<in> set (bcd_codes v)"
  shows "c \<le> 11"
proof -
  have r: "(word_of_int d :: C) \<le> 11" if "d \<in> set (digits v)" for d
  proof -
    from digits_range [OF assms(1) that] have "(word_of_int d :: C) \<le> 9"
      by (simp add: digit_code_le9)
    then show ?thesis by (simp add: word_le_def)
  qed
  have l: "last (digits v) \<in> set (digits v)" using digits_not_Nil by simp
  have b: "d \<in> set (digits v)" if "d \<in> set (butlast (digits v))" for d
    using that by (rule in_set_butlastD)
  from assms(2) show ?thesis
    unfolding bcd_codes_def Let_def
    by (auto split: if_splits dest: b intro: r l)
qed

lemma bcd_codes_lt16:
  assumes "0 \<le> v"
  shows "\<forall>c\<in>set (bcd_codes v). c < 16"
proof
  fix c assume "c \<in> set (bcd_codes v)"
  from bcd_codes_le11 [OF assms this] show "c < 16"
    by (simp add: word_less_def word_le_def)
qed

lemma emitted_codes:
  assumes "emit_ready (q, i)" and "0 \<le> v"
  shows "emitted q i v = bcd_codes v"
  using map_nibble_fold_emit [OF assms(1) bcd_codes_lt16 [OF assms(2)]]
  by (simp add: emitted_def emitBCD_fold case_prod_beta)

lemma snd_emitBCD:
  assumes "emit_ready (q, i)" and "0 \<le> v"
  shows "snd (emitBCD q i v) = i + int (length (bcd_codes v))"
  using fold_emit_all [OF assms(1) bcd_codes_lt16 [OF assms(2)]]
  by (simp add: emitBCD_fold)

lemma nibble_emitBCD:
  assumes "emit_ready (q, i)" and "0 \<le> v" and "k < length (bcd_codes v)"
  shows "nibble (fst (emitBCD q i v)) (i + int k) = bcd_codes v ! k"
  using fold_emit_all [OF assms(1) bcd_codes_lt16 [OF assms(2)]] assms(3)
  by (simp add: emitBCD_fold)

text \<open>The value decoded from the codes of \<open>v\<close>.\<close>

lemma decode_value:
  assumes "0 \<le> v"
  defines "b \<equiv> last (digits v)"
  defines "ds \<equiv> (if b > 1 then [word_of_int b] else []) @ map word_of_int (rev (butlast (digits v)))"
  shows "foldl (\<lambda>a d. a * 10 + ucast d) (0 :: T) (ds :: C list)
           + 1 * 10 ^ length ds * (if b = 1 then 1 else 0) = word_of_int v"
proof -
  define ds0 where "ds0 = butlast (digits v)"
  have dv: "digits v = ds0 @ [b]"
    using digits_not_Nil [of v] by (simp add: ds0_def b_def)
  have rng: "\<forall>d\<in>set (digits v). 0 \<le> d \<and> d \<le> 9"
    using digits_range [OF assms(1)] by blast
  then have rng0: "\<forall>d\<in>set (rev ds0). 0 \<le> d \<and> d \<le> 9" and b: "0 \<le> b" "b \<le> 9"
    by (simp_all add: dv)
  have v: "v = dval ds0 + 10 ^ length ds0 * b"
    using dval_digits [OF assms(1)] by (simp add: dv dval_append)
  show ?thesis
  proof (cases "b > 1")
    case True
    have "ds = map word_of_int (rev (digits v))"
      using True by (simp add: ds_def dv ds0_def [symmetric])
    moreover have "\<forall>d\<in>set (rev (digits v)). 0 \<le> d \<and> d \<le> 9" using rng by simp
    ultimately have "foldl (\<lambda>a d. a * 10 + ucast d) (0 :: T) ds
        = word_of_int (foldl (\<lambda>a d. a * 10 + d) 0 (rev (digits v)))"
      using foldl_word_digits [of "rev (digits v)" 0] by simp
    also have "\<dots> = word_of_int v"
      by (simp add: foldl_rev_dval dval_digits [OF assms(1)])
    finally show ?thesis using True by simp
  next
    case False
    have ds: "ds = map word_of_int (rev ds0)"
      using False by (simp add: ds_def ds0_def)
    then have len: "length ds = length ds0" by simp
    have "foldl (\<lambda>a d. a * 10 + ucast d) (0 :: T) ds
        = word_of_int (foldl (\<lambda>a d. a * 10 + d) 0 (rev ds0))"
      using foldl_word_digits [OF rng0, of 0] ds by simp
    also have "\<dots> = word_of_int (dval ds0)"
      by (simp add: foldl_rev_dval)
    finally have f: "foldl (\<lambda>a d. a * 10 + ucast d) (0 :: T) ds = word_of_int (dval ds0)" .
    from False b have "b = 0 \<or> b = 1" by arith
    then show ?thesis
    proof
      assume "b = 0"
      with f v show ?thesis by simp
    next
      assume "b = 1"
      with f v len show ?thesis by simp
    qed
  qed
qed

lemma bcd_loop_step:
  "bcd_loop c a b i =
     (if nibble c i \<le> 9 then bcd_loop c (a * 10 + ucast (nibble c i)) (b * 10) (i + 1)
      else if nibble c i = BCD_N then Some (Inr (a, i + 1))
      else if nibble c i = BCD_P then Some (Inr (a + b, i + 1))
      else Some (Inl (Bad_BCD (nibble c i))))"
  by (subst bcd_loop.simps) (simp add: and15_small [OF nibble_lt16] Let_def)

lemma decode_emitBCD:
  assumes "emit_ready (q, i)" and "0 \<le> v"
  shows "nibble (fst (emitBCD q i v)) i = C_BCD"
    and "bcd_loop (fst (emitBCD q i v)) 0 1 (i + 1) = Some (Inr (word_of_int v, snd (emitBCD q i v)))"
proof -
  let ?c = "fst (emitBCD q i v)"
  define b where "b = last (digits v)"
  define ds :: "C list" where
    "ds = (if b > 1 then [word_of_int b] else []) @ map word_of_int (rev (butlast (digits v)))"
  define t :: C where "t = (if b = 1 then 11 else 10)"
  have codes: "bcd_codes v = C_BCD # ds @ [t]"
    by (simp add: bcd_codes_def Let_def ds_def t_def b_def)
  have nth: "nibble ?c (i + int k) = (C_BCD # ds @ [t]) ! k" if "k < length ds + 2" for k
    using nibble_emitBCD [OF assms, of k] that by (simp add: codes)
  from nth [of 0] show "nibble ?c i = C_BCD" by simp
  have 1: "\<forall>k<length ds. nibble ?c (i + 1 + int k) = ds ! k"
  proof (intro allI impI)
    fix k assume k: "k < length ds"
    then have "nibble ?c (i + int (Suc k)) = (C_BCD # ds @ [t]) ! Suc k"
      using nth [of "Suc k"] by simp
    with k show "nibble ?c (i + 1 + int k) = ds ! k"
      by (simp add: nth_append add.assoc)
  qed
  have 2: "\<forall>d\<in>set ds. d \<le> 9"
  proof
    fix d assume d: "d \<in> set ds"
    have r: "(word_of_int x :: C) \<le> 9" if "x \<in> set (digits v)" for x
      using digits_range [OF assms(2) that] by (simp add: digit_code_le9)
    have l: "last (digits v) \<in> set (digits v)" using digits_not_Nil by simp
    from d show "d \<le> 9"
      unfolding ds_def b_def by (auto split: if_splits intro: r l dest: in_set_butlastD)
  qed
  have 3: "nibble ?c (i + 1 + int (length ds)) = t"
    using nth [of "Suc (length ds)"] by (simp add: nth_append add.assoc)
  have 4: "t = BCD_N \<or> t = BCD_P" by (simp add: t_def)
  have tb: "t = BCD_P \<longleftrightarrow> b = 1" by (simp add: t_def)
  have "bcd_loop ?c 0 1 (i + 1) =
      Some (Inr (foldl (\<lambda>a d. a * 10 + ucast d) 0 ds + 1 * 10 ^ length ds * (if b = 1 then 1 else 0),
                 i + 1 + int (length ds) + 1))"
    using bcd_loop_digits [OF 1 2 3 4, of 0 1] by (simp only: tb)
  moreover have "foldl (\<lambda>a d. a * 10 + ucast d) (0 :: T) ds
      + 1 * 10 ^ length ds * (if b = 1 then 1 else 0) = word_of_int v"
    using decode_value [OF assms(2)] unfolding ds_def b_def .
  moreover have "snd (emitBCD q i v) = i + 1 + int (length ds) + 1"
    using snd_emitBCD [OF assms] by (simp add: codes)
  ultimately show "bcd_loop ?c 0 1 (i + 1) = Some (Inr (word_of_int v, snd (emitBCD q i v)))"
    by simp
qed

lemma sint_of_int31: "0 \<le> v \<Longrightarrow> v < 2 ^ 31 \<Longrightarrow> sint (word_of_int v :: T) = v"
  by (simp add: sint_sbintrunc' signed_take_bit_int_eq_self)

lemma last_digits_pos: "0 < v \<Longrightarrow> 1 \<le> last (digits v)"
proof (induction v rule: digits.induct)
  case (1 v)
  from "1.prems" have v0: "0 \<le> v" by simp
  have step: "digits v = (v mod 10) # (if v div 10 \<noteq> 0 then digits (v div 10) else [])"
    using v0 by (rule digits_nonneg)
  from v0 have sd: "v sdiv 10 = v div 10"
    by (cases "v = 0") (simp_all add: signed_divide_int_def)
  show ?case
  proof (cases "v div 10 = 0")
    case True
    with "1.prems" have "v mod 10 = v" by (simp add: div_eq_0_iff) 
    with step True "1.prems" show ?thesis by simp
  next
    case False
    with v0 have "0 < v div 10" by (simp add: order_less_le)
    with "1.IH" False sd have "1 \<le> last (digits (v div 10))" by simp
    with step False show ?thesis by (simp add: digits_not_Nil)
  qed
qed

section \<open>Jump scans over a region without brackets\<close>

lemma jmp_scan_skip_fwd:
  assumes "\<forall>k. a \<le> k \<and> k < b \<longrightarrow> nibble c k \<noteq> open \<and> nibble c k \<noteq> close"
    and "a \<le> b" and "e < a \<or> b \<le> e"
  shows "jmp_scan c open close 1 e a d = jmp_scan c open close 1 e b d"
  using assms
proof (induction "nat (b - a)" arbitrary: a)
  case 0
  then have "a = b" by simp
  then show ?case by simp
next
  case (Suc n)
  then have lt: "a < b" by linarith
  with Suc.prems(1) have nb: "nibble c a \<noteq> open" "nibble c a \<noteq> close" by simp_all
  from lt Suc.prems(3) have ne: "a \<noteq> e" by auto
  have "jmp_scan c open close 1 e a d = jmp_scan c open close 1 e (a + 1) d"
    using nb ne by (subst jmp_scan.simps) simp
  also have "\<dots> = jmp_scan c open close 1 e b d"
  proof (rule Suc.hyps(1))
    show "n = nat (b - (a + 1))" using Suc.hyps(2) by linarith
    show "\<forall>k. a + 1 \<le> k \<and> k < b \<longrightarrow> nibble c k \<noteq> open \<and> nibble c k \<noteq> close"
      using Suc.prems(1) by simp
    show "a + 1 \<le> b" using lt by simp
    show "e < a + 1 \<or> b \<le> e" using Suc.prems(3) by auto
  qed
  finally show ?case .
qed

lemma jmp_scan_skip_bwd:
  assumes "\<forall>k. a \<le> k \<and> k < b \<longrightarrow> nibble c k \<noteq> open \<and> nibble c k \<noteq> close"
    and "a \<le> b" and "e < a \<or> b \<le> e"
  shows "jmp_scan c open close (- 1) e (b - 1) d = jmp_scan c open close (- 1) e (a - 1) d"
  using assms
proof (induction "nat (b - a)" arbitrary: b)
  case 0
  then have "a = b" by simp
  then show ?case by simp
next
  case (Suc n)
  then have lt: "a < b" by linarith
  with Suc.prems(1) have nb: "nibble c (b - 1) \<noteq> open" "nibble c (b - 1) \<noteq> close" by simp_all
  from lt Suc.prems(3) have ne: "b - 1 \<noteq> e" by auto
  have "jmp_scan c open close (- 1) e (b - 1) d = jmp_scan c open close (- 1) e (b - 1 - 1) d"
    using nb ne by (subst jmp_scan.simps) simp
  also have "\<dots> = jmp_scan c open close (- 1) e (a - 1) d"
  proof (rule Suc.hyps(1))
    show "n = nat (b - 1 - a)" using Suc.hyps(2) by linarith
    show "\<forall>k. a \<le> k \<and> k < b - 1 \<longrightarrow> nibble c k \<noteq> open \<and> nibble c k \<noteq> close"
      using Suc.prems(1) by simp
    show "a \<le> b - 1" using lt by simp
    show "e < a \<or> b - 1 \<le> e" using Suc.prems(3) ne by auto
  qed
  finally show ?case .
qed

section \<open>What an instruction does to the stack pointer, and how it can stop\<close>

lemma say_scan_range: "say_scan m s = Inr k \<Longrightarrow> 0 \<le> k \<and> k \<le> s"
proof (induction m s rule: say_scan.induct)
  case (1 m s)
  show ?case
  proof (cases "s \<noteq> 0 \<and> in_st s \<and> m s \<noteq> 0")
    case True
    with "1.prems" have "say_scan m (s - 1) = Inr k"
      by (subst (asm) say_scan.simps) simp
    with "1.IH" True show ?thesis by simp
  next
    case False
    with "1.prems" show ?thesis
      by (subst (asm) say_scan.simps) (auto simp add: in_st_def split: if_splits)
  qed
qed


lemma say_scan_inside: "0 \<le> s \<Longrightarrow> s < MAXSP \<Longrightarrow> \<exists>k. say_scan m s = Inr k"
proof (induction m s rule: say_scan.induct)
  case (1 m s)
  show ?case
  proof (cases "s \<noteq> 0 \<and> m s \<noteq> 0")
    case True
    with "1.prems" have i: "in_st s" by (simp add: in_st_def)
    with "1.IH" True "1.prems" obtain k where "say_scan m (s - 1) = Inr k" by force
    with True i have "say_scan m s = Inr k" by (subst say_scan.simps) simp
    then show ?thesis by blast
  next
    case False
    with "1.prems" have "say_scan m s = Inr s"
      by (subst say_scan.simps) (auto simp add: in_st_def)
    then show ?thesis by blast
  qed
qed


lemma jmp_sp: "jmp opn cls inc e s = Some (Inr t) \<Longrightarrow> sp t = sp s"
  by (auto simp add: jmp_def Let_def split: if_splits option.splits sum.splits)


lemma jmp_scan_fatal:
  "jmp_scan c opn cls inc e i d = Some r \<Longrightarrow> r = Inl f \<longrightarrow> f = Couldnt_match opn"
proof (induction c opn cls inc e i d r rule: jmp_scan.raw_induct [rotated 1, consumes 1])
  case (1 jmp_scan c opn cls inc e i depth r)
  from 1(2) show ?case
    by (auto split: if_splits dest: 1(1))
qed


lemma jmp_fatal: "jmp opn cls inc e s = Some (Inl f) \<Longrightarrow> f = Exit (Couldnt_match opn)"
proof -
  note scan = jmp_scan_fatal [rule_format]
  assume "jmp opn cls inc e s = Some (Inl f)"
  then show ?thesis
    by (auto simp add: jmp_def Let_def split: if_splits option.splits sum.splits dest: scan)
qed


lemma dfn_sp: "dfn i s = Inr t \<Longrightarrow> sp t = sp s"
  by (auto simp add: dfn_def dfn_close_def Let_def split: if_splits sum.splits prod.splits)


lemma dfn_fatal:
  "dfn i s = Inl f \<Longrightarrow> f = Exit Couldnt_match_dfn \<or> f = Out_of_bounds Array_fn"
proof -
  have loop: "dfn_close_loop c e j = Inl f \<Longrightarrow> f = Couldnt_match_dfn" for c e j f
  proof (induction c e j rule: dfn_close_loop.induct)
    case (1 c e i)
    from "1.prems" show ?case
      by (subst (asm) dfn_close_loop.simps) (auto split: if_splits dest: "1.IH")
  qed
  assume "dfn i s = Inl f"
  then show ?thesis
    by (auto simp add: dfn_def dfn_close_def Let_def split: if_splits sum.splits prod.splits
        dest: loop)
qed


lemma run_sp: "run i s = Inr t \<Longrightarrow> 0 \<le> sp t \<and> sp t \<le> sp s \<or> sp t = sp s"
  by (auto simp add: run_def swi_def top'_def split: if_splits sum.splits dest: say_scan_range)


lemma say_scan_stop: "say_scan m s = Inl e \<Longrightarrow> e = Out_of_bounds Array_st"
proof (induction m s rule: say_scan.induct)
  case (1 m s)
  show ?case
  proof (cases "s \<noteq> 0 \<and> in_st s \<and> m s \<noteq> 0")
    case True
    with "1.prems" have "say_scan m (s - 1) = Inl e"
      by (subst (asm) say_scan.simps) simp
    with "1.IH" True show ?thesis by simp
  next
    case False
    with "1.prems" show ?thesis
      by (subst (asm) say_scan.simps) (auto split: if_splits)
  qed
qed

lemma run_fatal:
  assumes "run i s = Inl f"
  shows "f = Exit Halt \<or> f = Exit (Bad_function i) \<or> f = Out_of_bounds Array_fn
    \<or> f = Out_of_bounds Array_fr \<or> f = Out_of_bounds Array_st"
  using assms
  by (auto simp add: run_def swi_def top'_def split: if_splits sum.splits dest: say_scan_stop)

lemma run_outside_stack:
  assumes "run i s = Inl (Out_of_bounds Array_st)" and "0 \<le> sp s" and "sp s < MAXSP"
  shows "i = SI_TOP \<and> sp s = 0"
proof -
  from say_scan_inside [OF assms(2,3)] obtain k where "say_scan (st s) (sp s) = Inr k" by blast
  with assms show ?thesis
    by (auto simp add: run_def swi_def top'_def in_st_def split: if_splits sum.splits)
qed



section \<open>The function-terminator scan and the instruction reading\<close>

lemma skip_bcd_to:
  assumes "k \<le> t" and "t < e" and "nibble c t = BCD_N \<or> nibble c t = BCD_P"
    and "\<forall>j. k \<le> j \<and> j < t \<longrightarrow> nibble c j \<noteq> BCD_N \<and> nibble c j \<noteq> BCD_P"
  shows "skip_bcd c e k = t"
  using assms
proof (induction "nat (t - k)" arbitrary: k)
  case 0
  then have "k = t" by simp
  with 0 show ?case by (subst skip_bcd.simps) auto
next
  case (Suc n)
  then have lt: "k < t" by linarith
  with Suc.prems have "skip_bcd c e k = skip_bcd c e (k + 1)"
    by (subst skip_bcd.simps) auto
  also have "\<dots> = t"
  proof (rule Suc.hyps(1))
    show "n = nat (t - (k + 1))" using Suc.hyps(2) by linarith
    show "k + 1 \<le> t" using lt by simp
    show "t < e" by fact
    show "nibble c t = BCD_N \<or> nibble c t = BCD_P" by fact
    show "\<forall>j. k + 1 \<le> j \<and> j < t \<longrightarrow> nibble c j \<noteq> BCD_N \<and> nibble c j \<noteq> BCD_P"
      using Suc.prems(4) by simp
  qed
  finally show ?case .
qed

lemma skip_bcd_spec:
  "k \<le> skip_bcd c e k
   \<and> (skip_bcd c e k < e \<longrightarrow> nibble c (skip_bcd c e k) = BCD_N \<or> nibble c (skip_bcd c e k) = BCD_P)
   \<and> (\<forall>j. k \<le> j \<and> j < skip_bcd c e k \<longrightarrow> nibble c j \<noteq> BCD_N \<and> nibble c j \<noteq> BCD_P)"
proof (induction c e k rule: skip_bcd.induct)
  case (1 c e i)
  show ?case
  proof (cases "i < e \<and> nibble c i \<noteq> BCD_N \<and> nibble c i \<noteq> BCD_P")
    case True
    then have eq: "skip_bcd c e i = skip_bcd c e (i + 1)" by (subst skip_bcd.simps) simp
    from "1.IH" True have IH: "i + 1 \<le> skip_bcd c e (i + 1)
      \<and> (skip_bcd c e (i + 1) < e \<longrightarrow>
           nibble c (skip_bcd c e (i + 1)) = BCD_N \<or> nibble c (skip_bcd c e (i + 1)) = BCD_P)
      \<and> (\<forall>j. i + 1 \<le> j \<and> j < skip_bcd c e (i + 1) \<longrightarrow> nibble c j \<noteq> BCD_N \<and> nibble c j \<noteq> BCD_P)"
      by simp
    have "nibble c j \<noteq> BCD_N \<and> nibble c j \<noteq> BCD_P" if "i \<le> j" "j < skip_bcd c e (i + 1)" for j
    proof (cases "j = i")
      case True
      with \<open>i < e \<and> nibble c i \<noteq> BCD_N \<and> nibble c i \<noteq> BCD_P\<close> show ?thesis by simp
    next
      case False
      with that IH show ?thesis by simp
    qed
    with IH show ?thesis unfolding eq by auto
  next
    case False
    then have "skip_bcd c e i = i" by (subst skip_bcd.simps) auto
    with False show ?thesis by auto
  qed
qed

lemma dfn_close_loop_pass:
  "instr_at c e i k \<Longrightarrow> dfn_close_loop c e i = dfn_close_loop c e k"
proof (induction rule: instr_at.induct)
  case first
  show ?case by simp
next
  case (literal k t)
  have "skip_bcd c e k = t"
    using literal.hyps(4,5,6,7) by (rule skip_bcd_to)
  with literal.hyps(2,3) have "dfn_close_loop c e k = dfn_close_loop c e (t + 1)"
    by (subst dfn_close_loop.simps) simp
  with literal.IH show ?case by simp
next
  case (other k)
  then have "dfn_close_loop c e k = dfn_close_loop c e (k + 1)"
    by (subst dfn_close_loop.simps) simp
  with other.IH show ?case by simp
qed

lemma dfn_close_loop_found:
  assumes "instr_at c e i t" and "t < e" and "nibble c t = C_DFN"
  shows "dfn_close_loop c e i = Inr (t + 1)"
proof -
  have "dfn_close_loop c e t = Inr (t + 1)"
    using assms(2,3) by (subst dfn_close_loop.simps) simp
  with dfn_close_loop_pass [OF assms(1)] show ?thesis by simp
qed

lemma dfn_close_loop_Inr:
  "dfn_close_loop c e k = Inr r \<Longrightarrow> instr_at c e i k
    \<Longrightarrow> instr_at c e i (r - 1) \<and> r - 1 < e \<and> nibble c (r - 1) = C_DFN"
proof (induction c e k rule: dfn_close_loop.induct)
  case (1 c e k)
  from "1.prems"(1) have ke: "k < e"
    by (subst (asm) dfn_close_loop.simps) (auto split: if_splits)
  show ?case
  proof (cases "nibble c k = C_DFN")
    case True
    with ke "1.prems"(1) have "r = k + 1"
      by (subst (asm) dfn_close_loop.simps) simp
    with True ke "1.prems"(2) show ?thesis by simp
  next
    case False
    define n where "n = (if nibble c k = C_BCD then skip_bcd c e k else k) + 1"
    from False ke "1.prems"(1) have nr: "dfn_close_loop c e n = Inr r"
      by (subst (asm) dfn_close_loop.simps) (simp add: n_def)
    then have ne: "n - 1 < e"
      by (subst (asm) dfn_close_loop.simps) (auto split: if_splits)
    have "instr_at c e i n"
    proof (cases "nibble c k = C_BCD")
      case True
      then have n: "n = skip_bcd c e k + 1" by (simp add: n_def)
      with ne have "skip_bcd c e k < e" by simp
      with skip_bcd_spec [of k c e] have
        "k \<le> skip_bcd c e k"
        "nibble c (skip_bcd c e k) = BCD_N \<or> nibble c (skip_bcd c e k) = BCD_P"
        "\<forall>j. k \<le> j \<and> j < skip_bcd c e k \<longrightarrow> nibble c j \<noteq> BCD_N \<and> nibble c j \<noteq> BCD_P"
        by blast+
      with instr_at.literal [OF "1.prems"(2) ke True _ \<open>skip_bcd c e k < e\<close>] n
      show ?thesis by simp
    next
      case nb: False
      then have "n = k + 1" by (simp add: n_def)
      with instr_at.other [OF "1.prems"(2) ke nb False] show ?thesis by simp
    qed
    with "1.IH" [OF ke False] nr show ?thesis by (simp add: n_def)
  qed
qed

lemma dfn_close_loop_Inl: "dfn_close_loop c e k = Inl f \<Longrightarrow> f = Couldnt_match_dfn"
proof (induction c e k rule: dfn_close_loop.induct)
  case (1 c e i)
  from "1.prems" show ?case
    by (subst (asm) dfn_close_loop.simps) (auto split: if_splits dest: "1.IH")
qed

lemma func_updates: "(f :: func)\<lparr>fn_start := a, fn_end := b\<rparr> = \<lparr>fn_start = a, fn_end = b\<rparr>"
  by (cases f) simp

lemma dfn_result:
  "dfn i s =
     (if in_fn (sint i) then
        (case dfn_close_loop (code s) (endp s) (ip s) of
           Inl f \<Rightarrow> Inl (Exit f)
         | Inr r \<Rightarrow> Inr (s\<lparr>fn := (fn s)(sint i := \<lparr>fn_start = ip s, fn_end = r - 1\<rparr>), ip := r\<rparr>))
      else Inl (Out_of_bounds Array_fn))"
  by (simp add: dfn_def dfn_close_def Let_def func_updates split: sum.splits)

section \<open>Call frames during a run\<close>

lemma bcd_frames: "bcd s = Some (Inr t) \<Longrightarrow> fp t = fp s \<and> fr t = fr s"
  by (auto simp add: bcd_def push_def split: option.splits sum.splits if_splits)

lemma dfn_frames: "dfn i s = Inr t \<Longrightarrow> fp t = fp s \<and> fr t = fr s"
  by (auto simp add: dfn_result split: sum.splits if_splits)

lemma jmp_frames: "jmp opn cls inc e s = Some (Inr t) \<Longrightarrow> fp t = fp s \<and> fr t = fr s"
  by (auto simp add: jmp_def Let_def split: if_splits option.splits sum.splits)

lemma LJ_frames: "LJ opn cls s = Some (Inr t) \<Longrightarrow> fp t = fp s \<and> fr t = fr s"
  by (auto simp add: LJ_def split: if_splits dest: jmp_frames)

lemma run_frames:
  "run i s = Inr t \<Longrightarrow> fp s \<le> fp t \<and> (\<forall>j<fp s. fr t j = fr s j)"
  by (auto simp add: run_def swi_def split: if_splits sum.splits)

lemma push_frames: "push v s = Inr t \<Longrightarrow> fp t = fp s \<and> fr t = fr s"
  by (auto simp add: push_def split: if_splits)

lemma pop_frames: "pop s = Inr (v, t) \<Longrightarrow> fp t = fp s \<and> fr t = fr s"
  by (auto simp add: pop_def split: if_splits)

lemma rw_frames: "rw i s = Inr t \<Longrightarrow> fp t = fp s \<and> fr t = fr s"
  by (auto simp add: rw_def split: if_splits sum.splits dest!: push_frames pop_frames)

lemma exe_case_frames:
  "exe_case c s = Some (Inr t) \<Longrightarrow> fp s \<le> fp t \<and> (\<forall>j<fp s. fr t j = fr s j)"
  unfolding exe_case_def and_then_def
  by (auto split: if_splits sum.splits
      dest!: bcd_frames dfn_frames jmp_frames LJ_frames run_frames push_frames pop_frames rw_frames)

lemma exe_frames:
  "exe s = Some r \<Longrightarrow> r = Inr t \<longrightarrow> fp s \<le> fp t \<and> (\<forall>j<fp s. fr t j = fr s j)"
proof (induction s r arbitrary: t rule: exe.raw_induct [rotated 1, consumes 1])
  case (1 exe s r)
  show ?case
  proof (cases "ip s < endp s")
    case False
    with 1(2) show ?thesis by auto
  next
    case True
    obtain c s1 where rd: "rd s = (c, s1)" by (cases "rd s")
    then have s1: "fp s1 = fp s" "fr s1 = fr s" by (auto simp add: rd_def)
    show ?thesis
    proof (cases "c AND 0xF = C_RET")
      case True
      with 1(2) \<open>ip s < endp s\<close> rd s1 show ?thesis by auto
    next
      case False
      show ?thesis
      proof (intro impI)
        assume r: "r = Inr t"
        from 1(2) \<open>ip s < endp s\<close> rd False r
        obtain s2 where c: "exe_case (c AND 0xF) s1 = Some (Inr s2)" and e: "exe s2 = Some (Inr t)"
          by (auto split: option.splits sum.splits)
        from exe_case_frames [OF c] s1 have a: "fp s \<le> fp s2" "\<forall>j<fp s. fr s2 j = fr s j" by simp_all
        from 1(1) [OF e] have b: "fp s2 \<le> fp t" "\<forall>j<fp s2. fr t j = fr s2 j" by simp_all
        from a b show "fp s \<le> fp t \<and> (\<forall>j<fp s. fr t j = fr s j)" by auto
      qed
    qed
  qed
qed

lemma returns_to_frame:
  "returns_to k s u \<Longrightarrow> k < fp s \<Longrightarrow>
     ra u = f_ra (fr s k) \<and> ip u = f_ip (fr s k) \<and> start u = f_start (fr s k)
     \<and> endp u = f_end (fr s k) \<and> fp u = k"
proof (induction rule: returns_to.induct)
  case (here s s1 u)
  from exe_frames [OF here.hyps(1), of s1] here.prems have "fr s1 k = fr s k" by simp
  with here.hyps(2,4) show ?case by (auto simp add: frame_pop_def split: if_splits)
next
  case (deeper s s1 s2 u)
  from exe_frames [OF deeper.hyps(1), of s1] deeper.prems
  have f: "fp s \<le> fp s1" "fr s1 k = fr s k" by simp_all
  from deeper.hyps(4) have s2: "fp s2 = fp s1 - 1" "fr s2 = fr s1"
    by (auto simp add: frame_pop_def split: if_splits)
  with f deeper.hyps(2) deeper.prems have "k < fp s2" by simp
  from deeper.IH [OF this] f s2 show ?case by simp
qed

lemma returns_to_frloop: "returns_to k s u \<Longrightarrow> frloop s = frloop u"
proof (induction rule: returns_to.induct)
  case (here s s1 u)
  then show ?case by (subst frloop.simps) (simp add: Let_def)
next
  case (deeper s s1 s2 u)
  from deeper.hyps(1,3,4) have "frloop s = frloop s2"
    by (subst frloop.simps) (simp add: Let_def)
  with deeper.IH show ?case by simp
qed

lemma run_doubling:
  "map_option (map_sum id observable) (b4cmd q0 r0 j0 ''dbl:%+:5=3 dbl.'' b4_zero)
     = Some (Inr ([6], 5, [Printf_code_size 10]))"
  by (simp add: b4_eval)

section \<open>Runs with and without reuse of the branch cache\<close>

lemma jmp_scan_unique:
  "jmp_scan c opn cls inc e i d = Some r \<Longrightarrow>
     \<forall>t e' t'. r = Inr t \<longrightarrow> jmp_scan c opn cls inc e' i d = Some (Inr t') \<longrightarrow> t = t'"
proof (induction c opn cls inc e i d r rule: jmp_scan.raw_induct [rotated 1, consumes 1])
  case (1 scan c opn cls inc e i d r)
  show ?case
  proof (intro allI impI)
    fix t e' t'
    assume r: "r = Inr t" and other: "jmp_scan c opn cls inc e' i d = Some (Inr t')"
    from 1(2) r have ie: "i \<noteq> e" by (auto split: if_splits)
    from other have ie': "i \<noteq> e'" by (subst (asm) jmp_scan.simps) (auto split: if_splits)
    consider (o) "nibble c i = opn"
      | (c0) "nibble c i \<noteq> opn" "nibble c i = cls" "d = 0"
      | (c1) "nibble c i \<noteq> opn" "nibble c i = cls" "d \<noteq> 0"
      | (n) "nibble c i \<noteq> opn" "nibble c i \<noteq> cls"
      by blast
    then show "t = t'"
    proof cases
      case o
      with 1(2) ie r have a: "scan c opn cls inc e (i + inc) (d + 1) = Some (Inr t)" by simp
      from other ie' o have b: "jmp_scan c opn cls inc e' (i + inc) (d + 1) = Some (Inr t')"
        by (subst (asm) jmp_scan.simps) simp
      from 1(1) [OF a] b show ?thesis by blast
    next
      case c0
      with 1(2) ie r have "t = i + 1" by simp
      moreover from other ie' c0 have "t' = i + 1"
        by (subst (asm) jmp_scan.simps) simp
      ultimately show ?thesis by simp
    next
      case c1
      with 1(2) ie r have a: "scan c opn cls inc e (i + inc) (d - 1) = Some (Inr t)" by simp
      from other ie' c1 have b: "jmp_scan c opn cls inc e' (i + inc) (d - 1) = Some (Inr t')"
        by (subst (asm) jmp_scan.simps) simp
      from 1(1) [OF a] b show ?thesis by blast
    next
      case n
      with 1(2) ie r have a: "scan c opn cls inc e (i + inc) d = Some (Inr t)" by simp
      from other ie' n have b: "jmp_scan c opn cls inc e' (i + inc) d = Some (Inr t')"
        by (subst (asm) jmp_scan.simps) simp
      from 1(1) [OF a] b show ?thesis by blast
    qed
  qed
qed

lemma wc_fields:
  "st (with_cache j s) = st s" "sp (with_cache j s) = sp s" "fp (with_cache j s) = fp s"
  "fr (with_cache j s) = fr s" "fn (with_cache j s) = fn s" "nm (with_cache j s) = nm s"
  "code (with_cache j s) = code s" "jtbl (with_cache j s) = j" "ip (with_cache j s) = ip s"
  "start (with_cache j s) = start s" "endp (with_cache j s) = endp s" "ra (with_cache j s) = ra s"
  "ready (with_cache j s) = ready s" "out (with_cache j s) = out s"
  by (simp_all add: with_cache_def)

lemma wc_updates:
  "(with_cache j s)\<lparr>st := a\<rparr> = with_cache j (s\<lparr>st := a\<rparr>)"
  "(with_cache j s)\<lparr>sp := b\<rparr> = with_cache j (s\<lparr>sp := b\<rparr>)"
  "(with_cache j s)\<lparr>fp := b\<rparr> = with_cache j (s\<lparr>fp := b\<rparr>)"
  "(with_cache j s)\<lparr>fr := f\<rparr> = with_cache j (s\<lparr>fr := f\<rparr>)"
  "(with_cache j s)\<lparr>fn := g\<rparr> = with_cache j (s\<lparr>fn := g\<rparr>)"
  "(with_cache j s)\<lparr>ip := i\<rparr> = with_cache j (s\<lparr>ip := i\<rparr>)"
  "(with_cache j s)\<lparr>start := i\<rparr> = with_cache j (s\<lparr>start := i\<rparr>)"
  "(with_cache j s)\<lparr>endp := i\<rparr> = with_cache j (s\<lparr>endp := i\<rparr>)"
  "(with_cache j s)\<lparr>ra := v\<rparr> = with_cache j (s\<lparr>ra := v\<rparr>)"
  "(with_cache j s)\<lparr>out := os\<rparr> = with_cache j (s\<lparr>out := os\<rparr>)"
  "(with_cache j s)\<lparr>jtbl := j'\<rparr> = with_cache j' s"
  "with_cache j' (with_cache j s) = with_cache j' s"
  "with_cache j (s\<lparr>jtbl := j'\<rparr>) = with_cache j s"
  by (simp_all add: with_cache_def)

lemma wc_pop:
  "pop (with_cache j s) = map_sum id (\<lambda>(v, t). (v, with_cache j t)) (pop s)"
  by (simp add: pop_def with_cache_def)

lemma wc_push: "push v (with_cache j s) = map_sum id (with_cache j) (push v s)"
  by (simp add: push_def with_cache_def)

lemma wc_rd: "rd (with_cache j s) = (fst (rd s), with_cache j (snd (rd s)))"
  by (simp add: rd_def with_cache_def)

lemma wc_rw: "rw i (with_cache j s) = map_sum id (with_cache j) (rw i s)"
  by (simp add: rw_def push_def pop_def with_cache_def)

lemma wc_bcd:
  "bcd (with_cache j s) = map_option (map_sum id (with_cache j)) (bcd s)"
  by (simp add: bcd_def push_def with_cache_def split: option.splits sum.splits)

lemma wc_dfn: "dfn i (with_cache j s) = map_sum id (with_cache j) (dfn i s)"
  by (simp add: dfn_result with_cache_def split: sum.splits)

lemma wc_run: "run i (with_cache j s) = map_sum id (with_cache j) (run i s)"
  by (simp add: run_def swi_def top'_def with_cache_def split: sum.splits)

lemma wc_frame_pop: "frame_pop (with_cache j s) = map_sum id (with_cache j) (frame_pop s)"
  by (simp add: frame_pop_def with_cache_def)

lemma wc_exe_case:
  assumes "c \<noteq> C_JAO" "c \<noteq> C_JAC" "c \<noteq> C_JBO" "c \<noteq> C_JBC"
  shows "exe_case c (with_cache j s) = map_option (map_sum id (with_cache j)) (exe_case c s)"
  using assms
  by (auto simp add: exe_case_def and_then_def wc_pop wc_push wc_rw wc_bcd wc_dfn wc_run
      wc_updates wc_fields split: sum.splits)

lemma jmp_fresh_eq:
  "jmp_fresh opn cls inc e s =
     (case jmp_scan (code s) opn cls inc e (ip s) 0 of
        None \<Rightarrow> None
      | Some (Inl f) \<Rightarrow> Some (Inl (Exit f))
      | Some (Inr t) \<Rightarrow> Some (Inr (s\<lparr>jtbl := (jtbl s)(ip s := t), ip := t\<rparr>)))"
  by (simp add: jmp_fresh_def jmp_def split: option.splits sum.splits)

lemma cache_hit:
  assumes "cache_ok c j" and "at_key c k opn cls inc" and "j k \<noteq> BADIP"
  shows "\<exists>e. jmp_scan c opn cls inc e k 0 = Some (Inr (j k))"
  using assms unfolding cache_ok_def at_key_def by blast

lemma cache_fill:
  assumes "cache_ok c j" and "no_shared_key c" and "at_key c k opn cls inc"
    and "jmp_scan c opn cls inc e k 0 = Some (Inr t)"
  shows "cache_ok c (j(k := t))"
  unfolding cache_ok_def
proof (intro allI impI)
  fix k' assume f: "(j(k := t)) k' \<noteq> BADIP"
  show "(nibble c (k' - 1) = C_JAO \<longrightarrow> (\<exists>e. jmp_scan c C_JAO C_JAC 1 e k' 0 = Some (Inr ((j(k := t)) k'))))
      \<and> (nibble c (k' - 1) = C_JBO \<longrightarrow> (\<exists>e. jmp_scan c C_JBO C_JBC 1 e k' 0 = Some (Inr ((j(k := t)) k'))))
      \<and> (nibble c (k' + 1) = C_JAC \<longrightarrow> (\<exists>e. jmp_scan c C_JAC C_JAO (- 1) e k' 0 = Some (Inr ((j(k := t)) k'))))
      \<and> (nibble c (k' + 1) = C_JBC \<longrightarrow> (\<exists>e. jmp_scan c C_JBC C_JBO (- 1) e k' 0 = Some (Inr ((j(k := t)) k'))))"
  proof (cases "k' = k")
    case False
    with f assms(1) show ?thesis unfolding cache_ok_def by simp
  next
    case True
    from assms(2) have ns: "\<not> ((nibble c (k - 1) = C_JAO \<or> nibble c (k - 1) = C_JBO)
              \<and> (nibble c (k + 1) = C_JAC \<or> nibble c (k + 1) = C_JBC))"
      unfolding no_shared_key_def by blast
    from assms(3) ns assms(4) True show ?thesis
      unfolding at_key_def by auto
  qed
qed

lemma jmp_sim:
  assumes "jmp_fresh opn cls inc e s = Some (Inr t)"
    and "cache_ok (code s) j" and "no_shared_key (code s)"
    and "at_key (code s) (ip s) opn cls inc"
  shows "\<exists>j'. jmp opn cls inc e (with_cache j s) = Some (Inr (with_cache j' t))
               \<and> cache_ok (code s) j'"
proof -
  from assms(1) obtain tt where scan: "jmp_scan (code s) opn cls inc e (ip s) 0 = Some (Inr tt)"
    and t: "t = s\<lparr>jtbl := (jtbl s)(ip s := tt), ip := tt\<rparr>"
    by (auto simp add: jmp_fresh_eq split: option.splits sum.splits)
  show ?thesis
  proof (cases "j (ip s) = BADIP")
    case True
    with scan have "jmp opn cls inc e (with_cache j s)
        = Some (Inr (with_cache (j(ip s := tt)) t))"
      by (simp add: jmp_def with_cache_def t)
    with cache_fill [OF assms(2,3,4) scan] show ?thesis by blast
  next
    case False
    from cache_hit [OF assms(2,4) False] obtain e' where
      "jmp_scan (code s) opn cls inc e' (ip s) 0 = Some (Inr (j (ip s)))" ..
    from jmp_scan_unique [OF this] scan have "j (ip s) = tt" by blast
    with False have "jmp opn cls inc e (with_cache j s) = Some (Inr (with_cache j t))"
      by (simp add: jmp_def with_cache_def t)
    with assms(2) show ?thesis by blast
  qed
qed

lemma jmp_fresh_code: "jmp_fresh opn cls inc e s = Some (Inr t) \<Longrightarrow> code t = code s"
  by (auto simp add: jmp_fresh_eq split: option.splits sum.splits)

lemma jmp_fresh_fatal:
  "jmp_fresh opn cls inc e s = Some (Inl f) \<Longrightarrow> f = Exit (Couldnt_match opn)"
  unfolding jmp_fresh_def by (rule jmp_fatal)

text \<open>One bracket instruction, in the state after \<open>rd\<close>.\<close>

lemma bracket_sim:
  assumes "exe_case_fresh c s = Some (Inr t)"
    and "c = C_JAO \<or> c = C_JAC \<or> c = C_JBO \<or> c = C_JBC"
    and "nibble (code s) (ip s - 1) = c"
    and "cache_ok (code s) j" and "no_shared_key (code s)"
  shows "\<exists>j'. exe_case c (with_cache j s) = Some (Inr (with_cache j' t)) \<and> cache_ok (code s) j'"
proof -
  from assms(2) consider "c = C_JAO" | "c = C_JAC" | "c = C_JBO" | "c = C_JBC" by blast
  then show ?thesis
  proof cases
    case 1
    let ?s1 = "s\<lparr>sp := sp s - 1\<rparr>"
    from 1 assms(1) have p: "pop s = Inr (st s (sp s - 1), ?s1)"
      by (auto simp add: exe_case_fresh_def and_then_def pop_def split: if_splits)
    show ?thesis
    proof (cases "st s (sp s - 1) = 0")
      case True
      with 1 assms(1) p have f: "jmp_fresh C_JAO C_JAC 1 (endp ?s1) ?s1 = Some (Inr t)"
        by (simp add: exe_case_fresh_def and_then_def)
      have k: "at_key (code ?s1) (ip ?s1) C_JAO C_JAC 1"
        using assms(3) 1 by (simp add: at_key_def)
      from jmp_sim [OF f _ _ k, of j] assms(4,5) True 1 p show ?thesis
        by (simp add: exe_case_def and_then_def wc_pop wc_fields wc_updates)
    next
      case False
      with 1 assms(1) p have "t = ?s1" by (simp add: exe_case_fresh_def and_then_def)
      with False 1 assms(4) p show ?thesis
        by (auto simp add: exe_case_def and_then_def wc_pop wc_fields wc_updates)
    qed
  next
    case 3
    let ?s1 = "s\<lparr>sp := sp s - 1\<rparr>"
    from 3 assms(1) have p: "pop s = Inr (st s (sp s - 1), ?s1)"
      by (auto simp add: exe_case_fresh_def and_then_def pop_def split: if_splits)
    show ?thesis
    proof (cases "st s (sp s - 1) \<le>s 0")
      case True
      with 3 assms(1) p have f: "jmp_fresh C_JBO C_JBC 1 (endp ?s1) ?s1 = Some (Inr t)"
        by (simp add: exe_case_fresh_def and_then_def)
      have k: "at_key (code ?s1) (ip ?s1) C_JBO C_JBC 1"
        using assms(3) 3 by (simp add: at_key_def)
      from jmp_sim [OF f _ _ k, of j] assms(4,5) True 3 p show ?thesis
        by (simp add: exe_case_def and_then_def wc_pop wc_fields wc_updates)
    next
      case False
      with 3 assms(1) p have "t = ?s1" by (simp add: exe_case_fresh_def and_then_def)
      with False 3 assms(4) p show ?thesis
        by (auto simp add: exe_case_def and_then_def wc_pop wc_fields wc_updates)
    qed
  next
    case 2
    let ?s1 = "s\<lparr>ra := ra s - 1, ip := ip s - 2\<rparr>"
    show ?thesis
    proof (cases "ra s \<noteq> 0")
      case True
      with 2 assms(1) have f: "jmp_fresh C_JAC C_JAO (- 1) (start s) ?s1 = Some (Inr t)"
        by (simp add: exe_case_fresh_def LJ_fresh_def)
      have k: "at_key (code ?s1) (ip ?s1) C_JAC C_JAO (- 1)"
        using assms(3) 2 by (simp add: at_key_def)
      from jmp_sim [OF f _ _ k, of j] assms(4,5) True 2 show ?thesis
        by (simp add: exe_case_def LJ_def wc_fields wc_updates)
    next
      case False
      with 2 assms(1) have "t = s" by (simp add: exe_case_fresh_def LJ_fresh_def)
      with False 2 assms(4) show ?thesis
        by (auto simp add: exe_case_def LJ_def wc_fields wc_updates)
    qed
  next
    case 4
    let ?s1 = "s\<lparr>ra := ra s - 1, ip := ip s - 2\<rparr>"
    show ?thesis
    proof (cases "ra s \<noteq> 0")
      case True
      with 4 assms(1) have f: "jmp_fresh C_JBC C_JBO (- 1) (start s) ?s1 = Some (Inr t)"
        by (simp add: exe_case_fresh_def LJ_fresh_def)
      have k: "at_key (code ?s1) (ip ?s1) C_JBC C_JBO (- 1)"
        using assms(3) 4 by (simp add: at_key_def)
      from jmp_sim [OF f _ _ k, of j] assms(4,5) True 4 show ?thesis
        by (simp add: exe_case_def LJ_def wc_fields wc_updates)
    next
      case False
      with 4 assms(1) have "t = s" by (simp add: exe_case_fresh_def LJ_fresh_def)
      with False 4 assms(4) show ?thesis
        by (auto simp add: exe_case_def LJ_def wc_fields wc_updates)
    qed
  qed
qed

lemma bracket_stop:
  assumes "exe_case_fresh c s = Some (Inl f)"
    and "c = C_JAO \<or> c = C_JAC \<or> c = C_JBO \<or> c = C_JBC"
  shows "f = Exit (Couldnt_match c) \<or> exe_case c (with_cache j s) = Some (Inl f)"
  using assms
  by (auto simp add: exe_case_fresh_def exe_case_def LJ_fresh_def and_then_def wc_pop
      split: if_splits sum.splits dest: jmp_fresh_fatal)

lemma exe_case_fresh_code: "exe_case_fresh c s = Some (Inr t) \<Longrightarrow> code t = code s"
proof -
  have pu: "push v s = Inr t \<Longrightarrow> code t = code s" for v s t
    by (auto simp add: push_def split: if_splits)
  have po: "pop s = Inr (v, t) \<Longrightarrow> code t = code s" for v s t
    by (auto simp add: pop_def split: if_splits)
  have w: "rw i s = Inr t \<Longrightarrow> code t = code s" for i s t
    by (auto simp add: rw_def split: if_splits sum.splits dest!: pu po)
  have b: "bcd s = Some (Inr t) \<Longrightarrow> code t = code s" for s t
    by (auto simp add: bcd_def split: option.splits sum.splits dest!: pu)
  have d: "dfn i s = Inr t \<Longrightarrow> code t = code s" for i s t
    by (auto simp add: dfn_result split: sum.splits if_splits)
  have r: "run i s = Inr t \<Longrightarrow> code t = code s" for i s t
    by (auto simp add: run_def swi_def split: if_splits sum.splits)
  have j: "jmp opn cls inc e s = Some (Inr t) \<Longrightarrow> code t = code s" for opn cls inc e s t
    by (auto simp add: jmp_def Let_def split: if_splits option.splits sum.splits)
  have l: "LJ opn cls s = Some (Inr t) \<Longrightarrow> code t = code s" for opn cls s t
    by (auto simp add: LJ_def split: if_splits dest: j)
  have e: "exe_case c s = Some (Inr t) \<Longrightarrow> code t = code s" for c s t
    unfolding exe_case_def and_then_def
    by (auto split: if_splits sum.splits dest!: b d r j l pu po w)
  assume "exe_case_fresh c s = Some (Inr t)"
  then show ?thesis
    unfolding exe_case_fresh_def LJ_fresh_def and_then_def
    by (auto split: if_splits sum.splits dest!: e jmp_fresh_code po)
qed

lemma rwc_simps:
  "result_with_cache j (Inl f) = Inl f" "result_with_cache j (Inr t) = Inr (with_cache j t)"
  by (simp_all add: result_with_cache_def)

lemma step_sim:
  assumes "exe_case_fresh c s = Some r"
    and "nibble (code s) (ip s - 1) = c"
    and "cache_ok (code s) j" and "no_shared_key (code s)"
    and "\<forall>opn. r \<noteq> Inl (Exit (Couldnt_match opn))"
  shows "\<exists>j'. exe_case c (with_cache j s) = Some (result_with_cache j' r)
               \<and> cache_ok (code s) j'"
proof (cases "c = C_JAO \<or> c = C_JAC \<or> c = C_JBO \<or> c = C_JBC")
  case True
  show ?thesis
  proof (cases r)
    case (Inl f)
    with bracket_stop [OF _ True, of s f j] assms(1,5)
    have "exe_case c (with_cache j s) = Some (result_with_cache j r)"
      by (auto simp add: rwc_simps)
    with assms(3) show ?thesis by blast
  next
    case (Inr t)
    with bracket_sim [OF _ True assms(2,3,4)] assms(1) show ?thesis by (simp add: rwc_simps)
  qed
next
  case False
  then have nb: "c \<noteq> C_JAO" "c \<noteq> C_JAC" "c \<noteq> C_JBO" "c \<noteq> C_JBC" by simp_all
  with assms(1) have "exe_case c s = Some r" by (simp add: exe_case_fresh_def)
  with wc_exe_case [OF nb, of j s] have "exe_case c (with_cache j s) = Some (result_with_cache j r)"
    by (cases r) (simp_all add: rwc_simps)
  with assms(3) show ?thesis by blast
qed

lemma exe_sim:
  "exe_fresh s = Some r \<Longrightarrow>
     \<forall>j. cache_ok (code s) j \<longrightarrow> no_shared_key (code s)
        \<longrightarrow> (\<forall>opn. r \<noteq> Inl (Exit (Couldnt_match opn)))
        \<longrightarrow> (\<exists>j'. exe (with_cache j s) = Some (result_with_cache j' r)
                  \<and> cache_ok (code s) j')
            \<and> (\<forall>t. r = Inr t \<longrightarrow> code t = code s)"
proof (induction s r rule: exe_fresh.raw_induct [rotated 1, consumes 1])
  case (1 exe' s r)
  show ?case
  proof (intro allI impI)
    fix j
    assume ok: "cache_ok (code s) j" and ns: "no_shared_key (code s)"
      and nf: "\<forall>opn. r \<noteq> Inl (Exit (Couldnt_match opn))"
    show "(\<exists>j'. exe (with_cache j s) = Some (result_with_cache j' r)
                  \<and> cache_ok (code s) j')
            \<and> (\<forall>t. r = Inr t \<longrightarrow> code t = code s)"
    proof (cases "ip s < endp s")
      case False
      with 1(2) have r: "r = Inr s" by simp
      from False have "exe (with_cache j s) = Some (Inr (with_cache j s))"
        by (subst exe.simps) (simp add: wc_fields)
      with r ok show ?thesis by (auto simp add: rwc_simps)
    next
      case True
      define c where "c = nibble (code s) (ip s)"
      define s1 where "s1 = s\<lparr>ip := ip s + 1\<rparr>"
      have rd: "rd s = (c, s1)" by (simp add: rd_def c_def s1_def)
      have c15: "c AND 0xF = c" unfolding c_def by (rule and15_small [OF nibble_lt16])
      have s1: "code s1 = code s" "nibble (code s1) (ip s1 - 1) = c"
        by (simp_all add: s1_def c_def)
      have rdw: "rd (with_cache j s) = (c, with_cache j s1)"
        by (simp add: wc_rd rd)
      show ?thesis
      proof (cases "c = C_RET")
        case ret: True
        with 1(2) True rd c15 have r: "r = Inr s1" by simp
        from True ret c15 rdw have "exe (with_cache j s) = Some (Inr (with_cache j s1))"
          by (subst exe.simps) (simp add: wc_fields)
        with r ok s1 show ?thesis by (auto simp add: rwc_simps)
      next
        case nret: False
        from 1(2) True rd c15 nret
        have eq: "(case exe_case_fresh c s1 of None \<Rightarrow> None | Some (Inl f) \<Rightarrow> Some (Inl f)
                   | Some (Inr s2) \<Rightarrow> exe' s2) = Some r"
          by simp
        then obtain r1 where step: "exe_case_fresh c s1 = Some r1"
          by (cases "exe_case_fresh c s1") auto
        have unf: "exe (with_cache j s) =
            (case exe_case c (with_cache j s1) of None \<Rightarrow> None | Some (Inl f) \<Rightarrow> Some (Inl f)
             | Some (Inr s2) \<Rightarrow> exe s2)"
          using True nret c15 rdw by (subst exe.simps) (simp add: wc_fields)
        show ?thesis
        proof (cases r1)
          case (Inl f)
          with eq step have r: "r = Inl f" by simp
          with nf Inl have "\<forall>opn. r1 \<noteq> Inl (Exit (Couldnt_match opn))" by simp
          from step_sim [OF step s1(2) _ _ this, of j] ok ns s1(1)
          obtain j' where "exe_case c (with_cache j s1) = Some (result_with_cache j' r1)"
            and ok': "cache_ok (code s) j'" by auto
          with unf Inl r have "exe (with_cache j s) = Some (result_with_cache j' r)"
            by (simp add: rwc_simps)
          with ok' r show ?thesis by blast
        next
          case (Inr s2)
          with eq step have rec: "exe' s2 = Some r" by simp
          from Inr have "\<forall>opn. r1 \<noteq> Inl (Exit (Couldnt_match opn))" by simp
          from step_sim [OF step s1(2) _ _ this, of j] ok ns s1(1)
          obtain j1 where st: "exe_case c (with_cache j s1) = Some (result_with_cache j1 r1)"
            and ok1: "cache_ok (code s) j1" by auto
          from exe_case_fresh_code [of c s1 s2] step Inr s1(1) have cd: "code s2 = code s" by simp
          have "(\<exists>j'. exe (with_cache j1 s2) = Some (result_with_cache j' r)
                  \<and> cache_ok (code s2) j')
            \<and> (\<forall>t. r = Inr t \<longrightarrow> code t = code s2)"
            using 1(1) [OF rec, THEN spec, of j1] ok1 ns nf cd by simp
          then obtain j' where x: "exe (with_cache j1 s2) = Some (result_with_cache j' r)"
            and ok': "cache_ok (code s) j'" and cd': "\<forall>t. r = Inr t \<longrightarrow> code t = code s"
            using cd by auto
          have "exe (with_cache j s) = Some (result_with_cache j' r)"
            using unf st Inr x by (simp add: rwc_simps)
          with ok' cd' show ?thesis by blast
        qed
      qed
    qed
  qed
qed

lemma frloop_sim:
  "frloop_fresh s = Some r \<Longrightarrow>
     \<forall>j. cache_ok (code s) j \<longrightarrow> no_shared_key (code s)
        \<longrightarrow> (\<forall>opn. r \<noteq> Inl (Exit (Couldnt_match opn)))
        \<longrightarrow> (\<exists>j'. frloop (with_cache j s) = Some (result_with_cache j' r)
                  \<and> cache_ok (code s) j')"
proof (induction s r rule: frloop_fresh.raw_induct [rotated 1, consumes 1])
  case (1 frloop' s r)
  show ?case
  proof (intro allI impI)
    fix j
    assume ok: "cache_ok (code s) j" and ns: "no_shared_key (code s)"
      and nf: "\<forall>opn. r \<noteq> Inl (Exit (Couldnt_match opn))"
    from 1(2) obtain r1 where e: "exe_fresh s = Some r1"
      by (cases "exe_fresh s") auto
    show "\<exists>j'. frloop (with_cache j s) = Some (result_with_cache j' r) \<and> cache_ok (code s) j'"
    proof (cases r1)
      case (Inl f)
      with 1(2) e have r: "r = Inl f" by simp
      with nf Inl have "\<forall>opn. r1 \<noteq> Inl (Exit (Couldnt_match opn))" by simp
      with exe_sim [OF e, THEN spec, of j] ok ns obtain j' where
        "exe (with_cache j s) = Some (result_with_cache j' r1)" and ok': "cache_ok (code s) j'"
        by blast
      with Inl r have "frloop (with_cache j s) = Some (result_with_cache j' r)"
        by (subst frloop.simps) (simp add: rwc_simps)
      with ok' show ?thesis by blast
    next
      case (Inr s1)
      then have "\<forall>opn. r1 \<noteq> Inl (Exit (Couldnt_match opn))" by simp
      with exe_sim [OF e, THEN spec, of j] ok ns
      have "(\<exists>j'. exe (with_cache j s) = Some (result_with_cache j' r1) \<and> cache_ok (code s) j')
            \<and> (\<forall>t. r1 = Inr t \<longrightarrow> code t = code s)" by blast
      with Inr obtain j1 where
        x: "exe (with_cache j s) = Some (Inr (with_cache j1 s1))"
        and ok1: "cache_ok (code s) j1" and cd: "code s1 = code s"
        by (auto simp add: rwc_simps)
      define s2 where "s2 = s1\<lparr>fp := fp s1 - 1\<rparr>"
      have unf: "frloop (with_cache j s) =
          (if fp s2 = 0 then Some (Inr (with_cache j1 s2))
           else (case frame_pop s2 of
                   Inl e \<Rightarrow> Some (Inl e)
                 | Inr s3 \<Rightarrow> frloop (with_cache j1 s3)))"
        using x by (subst frloop.simps)
          (simp add: Let_def s2_def wc_fields wc_updates wc_frame_pop split: sum.splits)
      show ?thesis
      proof (cases "fp s2 = 0")
        case True
        with 1(2) e Inr have "r = Inr s2" by (simp add: Let_def s2_def)
        with unf True have "frloop (with_cache j s) = Some (result_with_cache j1 r)"
          by (simp add: rwc_simps)
        with ok1 show ?thesis by blast
      next
        case False
        show ?thesis
        proof (cases "frame_pop s2")
          case (Inl e')
          with False 1(2) e Inr have "r = Inl e'" by (simp add: Let_def s2_def)
          with unf False Inl have "frloop (with_cache j s) = Some (result_with_cache j1 r)"
            by (simp add: rwc_simps)
          with ok1 show ?thesis by blast
        next
          case s3: (Inr s3)
          with False 1(2) e Inr have rec: "frloop' s3 = Some r"
            by (simp add: Let_def s2_def)
          from s3 have "code s3 = code s"
            by (auto simp add: frame_pop_def s2_def cd split: if_splits)
          with 1(1) [OF rec, THEN spec, of j1] ok1 ns nf obtain j' where
            "frloop (with_cache j1 s3) = Some (result_with_cache j' r)"
            and ok': "cache_ok (code s) j'" by auto
          with unf False s3 have "frloop (with_cache j s) = Some (result_with_cache j' r)"
            by simp
          with ok' show ?thesis by blast
        qed
      qed
    qed
  qed
qed

lemma observable_with_cache: "observable (with_cache j t) = observable t"
  by (simp add: observable_def stack_def with_cache_def)

text \<open>The code of the loop \<open>2=1[?!]\<close>, nibble by nibble.\<close>

lemma loop_start_code:
  "code loop_start =
     (\<lambda>k. if 0 \<le> k \<and> k < 5
          then ((\<lambda>i. 0)(0 := 32, 1 := 90, 2 := 176, 3 := 108, 4 := 215)) k else 0)"
  by (simp add: loop_start_def b4_eval)

lemma loop_start_nibble:
  "nibble (code loop_start) m =
     (if m = - 1 then 2 else if m = 1 then 2 else if m = 2 then 10 else if m = 3 then 5
      else if m = 5 then 11 else if m = 6 then C_JAO else if m = 7 then 6
      else if m = 8 then 7 else if m = 9 then C_JAC else 0)"
proof -
  consider "m < - 1" | "m = - 1" | "m = 0" | "m = 1" | "m = 2" | "m = 3" | "m = 4" | "m = 5"
    | "m = 6" | "m = 7" | "m = 8" | "m = 9" | "9 < m"
    by atomize_elim arith
  then show ?thesis
  proof cases
    case 1
    then have "m sdiv 2 < 0"
      by (simp add: signed_divide_int_def sgn_if)
    with 1 show ?thesis by (simp add: nibble_def loop_start_code)
  next
    case 13
    then have "m sdiv 2 = m div 2" by (simp add: sdiv2_nonneg)
    moreover from 13 have "5 \<le> m div 2" by linarith
    ultimately show ?thesis using 13 by (simp add: nibble_def loop_start_code)
  qed (simp_all add: nibble_def loop_start_code signed_divide_int_def)
qed

section \<open>Stack arithmetic (C1)\<close>

lemma exe_case_ADD:
  "exe_case C_ADD s =
     (if 2 \<le> sp s \<and> sp s \<le> MAXSP
      then Some (Inr (s\<lparr>st := (st s)(sp s - 2 := st s (sp s - 1) + st s (sp s - 2)),
                        sp := sp s - 1\<rparr>))
      else Some (Inl (Out_of_bounds Array_st)))"
  by (simp add: exe_case_def and_then_def pop_def push_def in_st_def)

lemma exe_case_SUB:
  "exe_case C_SUB s =
     (if 2 \<le> sp s \<and> sp s \<le> MAXSP
      then Some (Inr (s\<lparr>st := (st s)(sp s - 2 := st s (sp s - 1) - st s (sp s - 2)),
                        sp := sp s - 1\<rparr>))
      else Some (Inl (Out_of_bounds Array_st)))"
  by (simp add: exe_case_def and_then_def pop_def push_def in_st_def)

lemma run_3_4_add:
  "map_option (map_sum id stack) (b4cmd q0 r0 j0 ''3 4 +'' b4_zero) = Some (Inr [7])"
  by (simp add: b4_eval)

lemma run_5_2_sub:
  "map_option (map_sum id stack) (b4cmd q0 r0 j0 ''5 2 -'' b4_zero) = Some (Inr [- 3])"
  by (simp add: b4_eval)

text \<open>
  C1, as stated, at the text \<open>5 2 -\<close>: the claim has SUB push \<open>x - y\<close> with \<open>y\<close> the value
  popped first, so that the run ends with the stack \<open>[3]\<close>. The machine subtracts the
  other way round and ends with \<open>[-3]\<close>.
\<close>

theorem sub_order_counterexample:
  "map_option (map_sum id stack) (b4cmd zeros zeros zeros ''5 2 -'' b4_zero) = Some (Inr [- 3])
   \<and> map_option (map_sum id stack) (b4cmd zeros zeros zeros ''5 2 -'' b4_zero) \<noteq> Some (Inr [3])"
  by (simp add: b4_eval)

text \<open>
  C1, amended: in every state whose two top cells lie inside \<open>st\<close>, ADD pops two values
  and pushes their sum, and SUB pops the top value \<open>x\<close> first, then the value \<open>y\<close> below
  it, and pushes \<open>x - y\<close>: the value popped first is the left-hand operand. The result
  replaces the lower of the two cells and \<open>sp\<close> drops by one. In every other state the
  pops index \<open>st\<close> outside its bounds. The run of \<open>3 4 +\<close> ends with the stack \<open>[7]\<close> and
  the run of \<open>5 2 -\<close> with \<open>[-3]\<close>, whatever the fresh memory blocks hold.
\<close>

theorem add_sub_operands:
  "exe_case C_ADD s =
     (if 2 \<le> sp s \<and> sp s \<le> MAXSP
      then Some (Inr (s\<lparr>st := (st s)(sp s - 2 := st s (sp s - 1) + st s (sp s - 2)),
                        sp := sp s - 1\<rparr>))
      else Some (Inl (Out_of_bounds Array_st)))
   \<and> exe_case C_SUB s =
     (if 2 \<le> sp s \<and> sp s \<le> MAXSP
      then Some (Inr (s\<lparr>st := (st s)(sp s - 2 := st s (sp s - 1) - st s (sp s - 2)),
                        sp := sp s - 1\<rparr>))
      else Some (Inl (Out_of_bounds Array_st)))
   \<and> map_option (map_sum id stack) (b4cmd q0 r0 j0 ''3 4 +'' b4_zero) = Some (Inr [7])
   \<and> map_option (map_sum id stack) (b4cmd q0 r0 j0 ''5 2 -'' b4_zero) = Some (Inr [- 3])"
  using exe_case_ADD exe_case_SUB run_3_4_add run_5_2_sub by blast

section \<open>Codec round trip (C2)\<close>

text \<open>
  C2: for every non-negative \<open>v\<close> of the C type \<open>int\<close>, when \<open>emitBCD\<close> has written the
  literal of \<open>v\<close> at a position \<open>i\<close> of the buffer (a position \<open>emit\<close> can write at) and
  the machine stands at \<open>i\<close>, the code read there is \<open>C_BCD\<close> and \<open>bcd\<close> returns: it pushes
  \<open>v\<close> and leaves \<open>ip\<close> just past the literal; with \<open>sp\<close> inside \<open>st\<close> the result is the
  state with \<open>v\<close> in the cell at \<open>sp\<close> and \<open>sp\<close> one higher. The decoding loop does, per nibble, what
  the claim says: a digit code \<open>d\<close> gives \<open>v = v*10 + d\<close> and \<open>b = b*10\<close>, plain-end yields
  \<open>v\<close>, prefixed-end yields \<open>v + b\<close>, any other code is the fatal \<open>Bad BCD\<close>. The sums of
  the loop are 32-bit and wrap; the result is \<open>v\<close> all the same.
\<close>

theorem codec_round_trip:
  assumes "0 \<le> v" and "v < 2 ^ 31" and "emit_ready (q, i)"
    and "code s = fst (emitBCD q i v)" and "ip s = i"
  shows "fst (rd s) = C_BCD
    \<and> bcd (snd (rd s)) = Some (push (word_of_int v) (s\<lparr>ip := snd (emitBCD q i v)\<rparr>))
    \<and> (0 \<le> sp s \<and> sp s < MAXSP \<longrightarrow>
         bcd (snd (rd s)) = Some (Inr (s\<lparr>ip := snd (emitBCD q i v),
           st := (st s)(sp s := word_of_int v), sp := sp s + 1\<rparr>)))
    \<and> sint (word_of_int v :: T) = v
    \<and> bcd_loop c a b j =
        (if nibble c j \<le> 9 then bcd_loop c (a * 10 + ucast (nibble c j)) (b * 10) (j + 1)
         else if nibble c j = BCD_N then Some (Inr (a, j + 1))
         else if nibble c j = BCD_P then Some (Inr (a + b, j + 1))
         else Some (Inl (Bad_BCD (nibble c j))))"
proof -
  from decode_emitBCD(1) [OF assms(3,1)] assms(4,5) have 1: "fst (rd s) = C_BCD"
    by (simp add: rd_def)
  from decode_emitBCD(2) [OF assms(3,1)] assms(4,5)
  have 2: "bcd (snd (rd s)) = Some (push (word_of_int v) (s\<lparr>ip := snd (emitBCD q i v)\<rparr>))"
    by (simp add: rd_def bcd_def)
  then have 3: "bcd (snd (rd s)) = Some (Inr (s\<lparr>ip := snd (emitBCD q i v),
           st := (st s)(sp s := word_of_int v), sp := sp s + 1\<rparr>))"
    if "0 \<le> sp s \<and> sp s < MAXSP"
    using that by (simp add: push_def in_st_def)
  from 1 2 3 sint_of_int31 [OF assms(1,2)] bcd_loop_step [of c a b j] show ?thesis by blast
qed

text \<open>The round trip at \<open>v = 2024\<close>, written at the start of an empty buffer.\<close>

theorem codec_round_trip_witness:
  "(0::int) \<le> 2024 \<and> (2024::int) < 2 ^ 31 \<and> emit_ready (zeros, 0)
   \<and> fst (rd (b4_zero\<lparr>code := fst (emitBCD zeros 0 2024)\<rparr>)) = C_BCD
   \<and> bcd (snd (rd (b4_zero\<lparr>code := fst (emitBCD zeros 0 2024)\<rparr>)))
       = Some (Inr (b4_zero\<lparr>code := fst (emitBCD zeros 0 2024), ip := 6,
           st := (st b4_zero)(0 := 2024), sp := 1\<rparr>))
   \<and> sint (2024 :: T) = 2024"
proof -
  have r: "emit_ready (zeros, 0)" by (simp add: emit_ready_def)
  have e: "snd (emitBCD zeros 0 2024) = 6"
    by (simp add: emitBCD_def emit_def digits.simps Let_def signed_divide_int_def signed_modulo_int_def)
  from codec_round_trip [of 2024 zeros 0 "b4_zero\<lparr>code := fst (emitBCD zeros 0 2024)\<rparr>", OF _ _ r]
  show ?thesis using r e by (simp add: b4_zero_def push_def in_st_def)
qed

section \<open>Reuse of the branch cache (C3)\<close>

text \<open>
  C3 at the text \<open>f:,[=]:0 5 f. 0 1 1 f.\<close>: the body of \<open>f\<close> is \<open>,[=]\<close>, at the
  positions 4 to 7, with \<open>[\<close> at 5 and \<open>]\<close> at 7. The first call pops 0 at \<open>[\<close> and jumps
  forward: \<open>jmp\<close> is entered at position 6 and stores the target 8 there. In the second
  call \<open>]\<close> jumps back with the register at 1: \<open>jmp\<close> is entered at position 6 again
  (two before the position after \<open>]\<close>), finds the entry 8 and leaves the body, where a
  fresh backward scan yields 6 and runs \<open>=\<close> once more. The run that reuses the cache
  ends with the stack \<open>[5, 0]\<close>, the run with fresh scans with \<open>[5]\<close>: reuse of a cached
  target is observable here, although the cache is meant to save time only.
\<close>

theorem cache_reuse_changes_run:
  "asm_nibbles ''f:,[=]:0 5 f. 0 1 1 f.''
     = Inr [0, 4, 10, 9, 8, 12, 5, 13, 9, 0, 10, 0, 5, 10, 0, 4, 10, 10,
            0, 10, 0, 11, 0, 11, 0, 4, 10, 10]
   \<and> map_option (map_sum id observable)
       (b4cmd zeros zeros cold ''f:,[=]:0 5 f. 0 1 1 f.'' b4_zero)
     = Some (Inr ([5, 0], 0, [Printf_code_size 14]))
   \<and> map_option (map_sum id observable)
       (b4cmd_fresh zeros zeros cold ''f:,[=]:0 5 f. 0 1 1 f.'' b4_zero)
     = Some (Inr ([5], 0, [Printf_code_size 14]))"
  by (simp add: b4_eval)

text \<open>
  The extent of that defect: take a code in which no opening bracket stands two nibbles
  before a closing bracket, and a state whose filled cache entries are scan results (an
  empty cache, for one). If the run that computes every jump target by a fresh scan ends,
  normally, with a fatal error other than an unmatched bracket or at an access outside
  a static array, then the run that
  reuses the cache ends in the same way, with the same operand stack, register and
  output; and every entry of the cache at its end is the target that the scan of the
  bracket instruction at that position finds.
\<close>

theorem cache_reuse_unobservable:
  assumes "no_shared_key (code s)" and "cache_ok (code s) (jtbl s)"
    and "frloop_fresh s = Some r" and "\<forall>opn. r \<noteq> Inl (Exit (Couldnt_match opn))"
  shows "map_option (map_sum id observable) (frloop s) = Some (map_sum id observable r)
    \<and> (\<forall>t. frloop s = Some (Inr t) \<longrightarrow> cache_ok (code s) (jtbl t))"
proof -
  from frloop_sim [OF assms(3), THEN spec, of "jtbl s"] assms(1,2,4) obtain j' where
    "frloop (with_cache (jtbl s) s) = Some (result_with_cache j' r)"
    and ok: "cache_ok (code s) j'" by blast
  moreover have "with_cache (jtbl s) s = s" by (simp add: with_cache_def)
  ultimately have f: "frloop s = Some (result_with_cache j' r)" by simp
  then have 1: "map_option (map_sum id observable) (frloop s) = Some (map_sum id observable r)"
    by (cases r) (simp_all add: observable_with_cache rwc_simps)
  have 2: "cache_ok (code s) (jtbl t)" if "frloop s = Some (Inr t)" for t
    using that f ok by (cases r) (auto simp add: rwc_simps wc_fields)
  from 1 2 show ?thesis by blast
qed

text \<open>
  The loop \<open>2=1[?!]\<close>: the body runs three times, the second jump back reuses the
  entry that the first one stored.
\<close>

theorem cache_reuse_unobservable_example:
  "b4cmd_setup zeros zeros cold ''2=1[?!]'' b4_zero = Inr loop_start
   \<and> no_shared_key (code loop_start)
   \<and> cache_ok (code loop_start) (jtbl loop_start)
   \<and> map_option (map_sum id observable) (frloop_fresh loop_start)
       = Some (Inr ([], 0, [Printf_code_size 5]))
   \<and> map_option (map_sum id observable) (frloop loop_start)
       = Some (Inr ([], 0, [Printf_code_size 5]))"
proof -
  have s: "b4cmd_setup zeros zeros cold ''2=1[?!]'' b4_zero = Inr loop_start"
    by (simp add: loop_start_def b4_eval)
  have ns: "no_shared_key (code loop_start)"
    unfolding no_shared_key_def
  proof (intro allI notI)
    fix k
    assume a: "(nibble (code loop_start) (k - 1) = C_JAO \<or> nibble (code loop_start) (k - 1) = C_JBO)
      \<and> (nibble (code loop_start) (k + 1) = C_JAC \<or> nibble (code loop_start) (k + 1) = C_JBC)"
    then have "k - 1 = 6" by (simp add: loop_start_nibble split: if_splits)
    moreover from a have "k + 1 = 9" by (simp add: loop_start_nibble split: if_splits)
    ultimately show False by simp
  qed
  have ok: "cache_ok (code loop_start) (jtbl loop_start)"
    by (simp add: cache_ok_def loop_start_def b4_eval)
  have "case frloop_fresh loop_start of
          Some (Inr t) \<Rightarrow> observable t = ([], 0, [Printf_code_size 5]) | _ \<Rightarrow> False"
    by (simp add: loop_start_def b4_eval)
  then obtain t where f: "frloop_fresh loop_start = Some (Inr t)"
    and o: "observable t = ([], 0, [Printf_code_size 5])"
    by (auto split: option.splits sum.splits)
  have nf: "\<forall>opn. Inr t \<noteq> (Inl (Exit (Couldnt_match opn)) :: stop + b4)" by simp
  from cache_reuse_unobservable [OF ns ok f nf] o f s ns ok show ?thesis by simp
qed

section \<open>Popping is unchecked (C4)\<close>

lemma underflow_outside:
  assumes "c \<in> {C_ADD, C_SUB, C_MUL, C_RWS, C_RDA, C_POP, C_SWP, C_DFN, C_RUN, C_JAO, C_JBO}"
    and "sp s < pops c s"
  shows "exe_case c s = Some (Inl (Out_of_bounds Array_st))"
proof -
  from assms(1) consider (two) "c = C_ADD \<or> c = C_SUB \<or> c = C_MUL \<or> c = C_SWP"
    | (rws) "c = C_RWS"
    | (one) "c = C_RDA \<or> c = C_POP \<or> c = C_DFN \<or> c = C_RUN \<or> c = C_JAO \<or> c = C_JBO"
    by auto
  then show ?thesis
  proof cases
    case two
    with assms(2) have "sp s < 2" by (auto simp add: pops_def)
    with two show ?thesis
      by (auto simp add: exe_case_def and_then_def pop_def in_st_def)
  next
    case rws
    show ?thesis
    proof (cases "in_st (sp s - 1)")
      case False
      with rws show ?thesis by (simp add: exe_case_def and_then_def pop_def)
    next
      case True
      with rws assms(2) have "\<not> 0 \<le>s st s (sp s - 1)" "sp s = 1"
        by (auto simp add: pops_def in_st_def split: if_splits)
      with rws True show ?thesis
        by (simp add: exe_case_def and_then_def pop_def rw_def in_st_def)
    qed
  next
    case one
    with assms(2) have "sp s < 1" by (auto simp add: pops_def)
    with one show ?thesis
      by (auto simp add: exe_case_def and_then_def pop_def in_st_def)
  qed
qed

lemma popping_exits:
  assumes "c \<in> {C_ADD, C_SUB, C_MUL, C_RWS, C_RDA, C_POP, C_SWP, C_DFN, C_RUN, C_JAO, C_JBO}"
    and "exe_case c s = Some (Inl (Exit f))"
  shows "0 < sp s \<and> (f = Halt \<or> f = Couldnt_match_dfn \<or> f = Couldnt_match C_JAO
      \<or> f = Couldnt_match C_JBO \<or> f = Bad_function (st s (sp s - 1)))"
  using assms
  by (auto simp add: exe_case_def and_then_def pop_def push_def rw_def in_st_def
      split: if_splits sum.splits dest!: jmp_fatal dfn_fatal run_fatal)

lemma popping_step_inside:
  assumes "c \<in> {C_ADD, C_SUB, C_MUL, C_RWS, C_RDA, C_POP, C_SWP, C_DFN, C_RUN, C_JAO, C_JBO}"
    and "exe_case c s = Some (Inr t)"
  shows "pops c s \<le> sp s \<and> sp s \<le> MAXSP \<and> 0 \<le> sp t \<and> sp t \<le> sp s"
  using assms
  by (auto simp add: exe_case_def pops_def and_then_def pop_def push_def rw_def in_st_def
      split: if_splits sum.splits dest!: jmp_sp dfn_sp run_sp)

lemma outside_with_values:
  assumes "c \<in> {C_ADD, C_SUB, C_MUL, C_RDA, C_POP, C_SWP, C_DFN, C_RUN, C_JAO, C_JBO}"
    and "pops c s \<le> sp s" and "sp s \<le> MAXSP"
    and "exe_case c s = Some (Inl (Out_of_bounds Array_st))"
  shows "c = C_RUN \<and> st s (sp s - 1) = SI_TOP \<and> sp s = 1"
  using assms
  by (auto simp add: exe_case_def pops_def and_then_def pop_def push_def in_st_def
      split: if_splits sum.splits dest!: jmp_fatal dfn_fatal run_outside_stack)

lemma exe_case_RWS:
  assumes "0 < sp s" and "sp s \<le> MAXSP"
  shows "exe_case C_RWS s =
     (if 0 \<le>s st s (sp s - 1) then
        (if sint (st s (sp s - 1)) \<le> sp s - 2
         then Some (Inr (s\<lparr>st := (st s)(sp s - 1 := st s (sp s - 2 - sint (st s (sp s - 1))))\<rparr>))
         else Some (Inl (Out_of_bounds Array_st)))
      else
        (if 2 \<le> sp s \<and> - sint (st s (sp s - 1)) \<le> sp s - 2
         then Some (Inr (s\<lparr>st := (st s)(sp s - 2 + sint (st s (sp s - 1)) := st s (sp s - 2)),
                          sp := sp s - 2\<rparr>))
         else Some (Inl (Out_of_bounds Array_st))))"
  using assms
  by (auto simp add: exe_case_def and_then_def pop_def push_def rw_def in_st_def
      word_sle_eq word_sless_alt)

text \<open>
  C4, as stated, at the texts \<open>!\<close> and \<open>15$\<close>. DROP on the empty stack is no fault that
  the program reports: \<open>pop\<close> takes \<open>sp\<close> to \<open>-1\<close> and indexes \<open>st[-1]\<close>, outside the
  array, and nothing detects it. And with the stack holding the one value that INDEX
  pops, the index 15, INDEX reads \<open>st[-16]\<close>: the indices do not stay within
  \<open>[0, size)\<close> either.
\<close>

theorem pop_empty_counterexample:
  "b4cmd zeros zeros zeros ''!'' b4_zero = Some (Inl (Out_of_bounds Array_st))
   \<and> (\<forall>f. b4cmd zeros zeros zeros ''!'' b4_zero \<noteq> Some (Inl (Exit f)))
   \<and> b4cmd zeros zeros zeros ''15$'' b4_zero = Some (Inl (Out_of_bounds Array_st))"
  by (simp add: b4_eval)

text \<open>
  C4, amended: no instruction checks the stack pointer, and no exit of the program is a
  stack underflow. For every instruction that pops: executed when the stack holds
  fewer values than it pops, it indexes \<open>st\<close> below 0, an access outside the array that
  the program neither detects nor reports. The only faults it can report are those of
  the function-terminator scan (DEFINE), of the built-in dispatch (CALL: halt, unknown
  built-in) and of the bracket scan, and then the stack was not empty. Whenever the
  instruction yields a next state, the stack held the values it pops, \<open>sp\<close> was at most
  the size of \<open>st\<close>, and \<open>sp\<close> ends between 0 and its value before. With the values it
  pops on the stack, an instruction other than INDEX indexes \<open>st\<close> outside only in the
  call of the built-in \<open>top\<close> with nothing below its id (\<open>top\<close> reads \<open>st[-1]\<close>). INDEX
  reads or writes the cell that the index given on the stack selects, and stays inside
  \<open>st\<close> exactly when that cell is one of the cells below the index (and, for a store,
  below the value stored).
\<close>

theorem pop_is_unchecked:
  assumes "c \<in> {C_ADD, C_SUB, C_MUL, C_RWS, C_RDA, C_POP, C_SWP, C_DFN, C_RUN, C_JAO, C_JBO}"
  shows "(sp s < pops c s \<longrightarrow> exe_case c s = Some (Inl (Out_of_bounds Array_st)))
    \<and> (\<forall>f. exe_case c s = Some (Inl (Exit f)) \<longrightarrow>
          0 < sp s \<and> (f = Halt \<or> f = Couldnt_match_dfn \<or> f = Couldnt_match C_JAO
            \<or> f = Couldnt_match C_JBO \<or> f = Bad_function (st s (sp s - 1))))
    \<and> (\<forall>t. exe_case c s = Some (Inr t) \<longrightarrow>
          pops c s \<le> sp s \<and> sp s \<le> MAXSP \<and> 0 \<le> sp t \<and> sp t \<le> sp s)
    \<and> (c \<noteq> C_RWS \<and> pops c s \<le> sp s \<and> sp s \<le> MAXSP
          \<and> exe_case c s = Some (Inl (Out_of_bounds Array_st))
        \<longrightarrow> c = C_RUN \<and> st s (sp s - 1) = SI_TOP \<and> sp s = 1)
    \<and> (c = C_RWS \<and> 0 < sp s \<and> sp s \<le> MAXSP \<longrightarrow>
          exe_case c s =
            (if 0 \<le>s st s (sp s - 1) then
               (if sint (st s (sp s - 1)) \<le> sp s - 2
                then Some (Inr (s\<lparr>st := (st s)(sp s - 1 :=
                       st s (sp s - 2 - sint (st s (sp s - 1))))\<rparr>))
                else Some (Inl (Out_of_bounds Array_st)))
             else
               (if 2 \<le> sp s \<and> - sint (st s (sp s - 1)) \<le> sp s - 2
                then Some (Inr (s\<lparr>st := (st s)(sp s - 2 + sint (st s (sp s - 1)) :=
                       st s (sp s - 2)), sp := sp s - 2\<rparr>))
                else Some (Inl (Out_of_bounds Array_st)))))"
proof -
  note a = assms
  have 1: "sp s < pops c s \<longrightarrow> exe_case c s = Some (Inl (Out_of_bounds Array_st))"
    using underflow_outside [OF a] by blast
  have 2: "\<forall>f. exe_case c s = Some (Inl (Exit f)) \<longrightarrow>
          0 < sp s \<and> (f = Halt \<or> f = Couldnt_match_dfn \<or> f = Couldnt_match C_JAO
            \<or> f = Couldnt_match C_JBO \<or> f = Bad_function (st s (sp s - 1)))"
    using popping_exits [OF a] by blast
  have 3: "\<forall>t. exe_case c s = Some (Inr t) \<longrightarrow>
          pops c s \<le> sp s \<and> sp s \<le> MAXSP \<and> 0 \<le> sp t \<and> sp t \<le> sp s"
    using popping_step_inside [OF a] by blast
  have 4: "c \<noteq> C_RWS \<and> pops c s \<le> sp s \<and> sp s \<le> MAXSP
          \<and> exe_case c s = Some (Inl (Out_of_bounds Array_st))
        \<longrightarrow> c = C_RUN \<and> st s (sp s - 1) = SI_TOP \<and> sp s = 1"
  proof (intro impI)
    assume h: "c \<noteq> C_RWS \<and> pops c s \<le> sp s \<and> sp s \<le> MAXSP
          \<and> exe_case c s = Some (Inl (Out_of_bounds Array_st))"
    with a have "c \<in> {C_ADD, C_SUB, C_MUL, C_RDA, C_POP, C_SWP, C_DFN, C_RUN, C_JAO, C_JBO}"
      by blast
    from outside_with_values [OF this] h
    show "c = C_RUN \<and> st s (sp s - 1) = SI_TOP \<and> sp s = 1" by blast
  qed
  have 5: "c = C_RWS \<and> 0 < sp s \<and> sp s \<le> MAXSP \<longrightarrow>
          exe_case c s =
            (if 0 \<le>s st s (sp s - 1) then
               (if sint (st s (sp s - 1)) \<le> sp s - 2
                then Some (Inr (s\<lparr>st := (st s)(sp s - 1 :=
                       st s (sp s - 2 - sint (st s (sp s - 1))))\<rparr>))
                else Some (Inl (Out_of_bounds Array_st)))
             else
               (if 2 \<le> sp s \<and> - sint (st s (sp s - 1)) \<le> sp s - 2
                then Some (Inr (s\<lparr>st := (st s)(sp s - 2 + sint (st s (sp s - 1)) :=
                       st s (sp s - 2)), sp := sp s - 2\<rparr>))
                else Some (Inl (Out_of_bounds Array_st))))"
    using exe_case_RWS [of s] by blast
  from 1 2 3 4 5 show ?thesis by blast
qed

text \<open>ADD on a stack of two values, and DROP on the empty stack.\<close>

theorem pop_is_unchecked_witness:
  "C_ADD \<in> {C_ADD, C_SUB, C_MUL, C_RWS, C_RDA, C_POP, C_SWP, C_DFN, C_RUN, C_JAO, C_JBO}
   \<and> exe_case C_ADD (b4_zero\<lparr>sp := 2\<rparr>)
       = Some (Inr (b4_zero\<lparr>st := (st b4_zero)(0 := 0), sp := 1\<rparr>))
   \<and> pops C_ADD (b4_zero\<lparr>sp := 2\<rparr>) \<le> sp (b4_zero\<lparr>sp := 2\<rparr>)
   \<and> sp (b4_zero\<lparr>sp := 2\<rparr>) \<le> MAXSP
   \<and> C_POP \<in> {C_ADD, C_SUB, C_MUL, C_RWS, C_RDA, C_POP, C_SWP, C_DFN, C_RUN, C_JAO, C_JBO}
   \<and> sp b4_zero < pops C_POP b4_zero
   \<and> exe_case C_POP b4_zero = Some (Inl (Out_of_bounds Array_st))"
proof -
  have e: "exe_case C_ADD (b4_zero\<lparr>sp := 2\<rparr>)
      = Some (Inr (b4_zero\<lparr>st := (st b4_zero)(0 := 0), sp := 1\<rparr>))"
    by (simp add: exe_case_def and_then_def pop_def push_def in_st_def b4_zero_def)
  from pop_is_unchecked [of C_ADD "b4_zero\<lparr>sp := 2\<rparr>"] e
  have a: "pops C_ADD (b4_zero\<lparr>sp := 2\<rparr>) \<le> sp (b4_zero\<lparr>sp := 2\<rparr>)
      \<and> sp (b4_zero\<lparr>sp := 2\<rparr>) \<le> MAXSP"
    by blast
  have p: "sp b4_zero < pops C_POP b4_zero" by (simp add: pops_def b4_zero_def)
  from pop_is_unchecked [of C_POP b4_zero] p
  have b: "exe_case C_POP b4_zero = Some (Inl (Out_of_bounds Array_st))" by blast
  from e a p b show ?thesis by simp
qed

section \<open>The string-print built-in (C5)\<close>

text \<open>
  C5 at the text \<open>'Hi'.say\<close>: when \<open>say\<close> is called the stack holds 0, 72, 105 (the
  layout the assembler emits for \<open>'Hi'\<close>). The built-in removes these three cells and
  leaves what lies below (nothing, or the 7 of the second run), as the claim says. But
  it writes four bytes: the zero terminator itself, then \<open>H\<close>, \<open>i\<close> and the newline. The
  printing loop starts at the cell of the terminator, where the scan stopped, instead
  of one above it.
\<close>

theorem say_prints_terminator:
  "map_option (map_sum id observable)
     (b4cmd q0 r0 j0 ([CHR 0x27] @ ''Hi'' @ [CHR 0x27] @ ''.say'') b4_zero)
   = Some (Inr ([], 0, [Printf_code_size 7, Putchar 0, Putchar 72, Putchar 105, Putchar 10]))
   \<and> map_option (map_sum id observable)
     (b4cmd q0 r0 j0 (''7 '' @ [CHR 0x27] @ ''Hi'' @ [CHR 0x27] @ ''.say'') b4_zero)
   = Some (Inr ([7], 0, [Printf_code_size 8, Putchar 0, Putchar 72, Putchar 105, Putchar 10]))"
  by (simp add: b4_eval)

section \<open>The register across a call (C6)\<close>

text \<open>
  C6: a call of a bound function (an id of the table \<open>fn\<close> whose entry has a non-zero
  end), at a frame depth \<open>fp\<close> that \<open>fr\<close> has room for, stores the caller's range,
  return position and register in the frame at \<open>fp\<close>, increments \<open>fp\<close>, and starts the
  callee at the beginning of its body with the register at zero. Whenever the frame
  loop then comes back to the caller's frame depth, whatever the callee and the
  functions it calls did in between (every access of theirs to \<open>st\<close>, \<open>fr\<close> and \<open>fn\<close>
  inside the bounds: \<open>returns_to\<close> holds of no run that stops), the register, the
  position and the range are the caller's again, and the run goes on from there. The text
  \<open>dbl:%+:5=3 dbl.\<close> defines a function that doubles its argument, loads the register
  with 5 and calls the function with 3: the run ends with the stack \<open>[6]\<close> and the
  register 5.
\<close>

theorem call_saves_and_restores_register:
  assumes "in_fn (sint i)" and "fn_end (fn s (sint i)) \<noteq> 0" and "in_fr (fp s)"
  shows "run i s = Inr (s\<lparr>
        fr := (fr s)(fp s := \<lparr>f_start = start s, f_end = endp s, f_ip = ip s, f_ra = ra s\<rparr>),
        fp := fp s + 1,
        start := fn_start (fn s (sint i)),
        endp := fn_end (fn s (sint i)),
        ip := fn_start (fn s (sint i)),
        ra := 0\<rparr>)
    \<and> (\<forall>s1 u. run i s = Inr s1 \<and> returns_to (fp s) s1 u \<longrightarrow>
          ra u = ra s \<and> ip u = ip s \<and> start u = start s \<and> endp u = endp s \<and> fp u = fp s
          \<and> frloop s1 = frloop u)
    \<and> map_option (map_sum id observable) (b4cmd q0 r0 j0 ''dbl:%+:5=3 dbl.'' b4_zero)
        = Some (Inr ([6], 5, [Printf_code_size 10]))"
proof -
  let ?s1 = "s\<lparr>
        fr := (fr s)(fp s := \<lparr>f_start = start s, f_end = endp s, f_ip = ip s, f_ra = ra s\<rparr>),
        fp := fp s + 1,
        start := fn_start (fn s (sint i)),
        endp := fn_end (fn s (sint i)),
        ip := fn_start (fn s (sint i)),
        ra := 0\<rparr>"
  have 1: "run i s = Inr ?s1" using assms by (simp add: run_def)
  have 2: "ra u = ra s \<and> ip u = ip s \<and> start u = start s \<and> endp u = endp s \<and> fp u = fp s
          \<and> frloop s1 = frloop u"
    if "run i s = Inr s1" "returns_to (fp s) s1 u" for s1 u
  proof -
    from that(1) 1 have s1: "s1 = ?s1" by simp
    then have "fp s < fp s1" by simp
    from returns_to_frame [OF that(2) this] returns_to_frloop [OF that(2)] show ?thesis
      by (simp add: s1)
  qed
  from 1 2 run_doubling show ?thesis by blast
qed

text \<open>
  The call of \<open>dbl\<close> in that text: the callee runs from 4 to 8 and leaves 6 on the
  stack; the frame loop then restores the frame at depth 1, and the register is 5 again.
\<close>

theorem call_saves_and_restores_register_witness:
  "in_fn (sint (4 :: T)) \<and> fn_end (fn dbl_call (sint (4 :: T))) \<noteq> 0 \<and> in_fr (fp dbl_call)
   \<and> asm_nibbles ''dbl:%+:5=3 dbl.''
       = Inr [0, 4, 10, 9, 0, 10, 4, 1, 9, 0, 5, 10, 5, 0, 3, 10, 0, 4, 10, 10]
   \<and> run 4 dbl_call = Inr (dbl_call\<lparr>
        fr := (fr dbl_call)(1 := \<lparr>f_start = 0, f_end = 20, f_ip = 20, f_ra = 5\<rparr>),
        fp := 2, start := 4, endp := 8, ip := 4, ra := 0\<rparr>)
   \<and> returns_to 1
        (dbl_call\<lparr>
          fr := (fr dbl_call)(1 := \<lparr>f_start = 0, f_end = 20, f_ip = 20, f_ra = 5\<rparr>),
          fp := 2, start := 4, endp := 8, ip := 4, ra := 0\<rparr>)
        (dbl_call\<lparr>
          st := (st dbl_call)(1 := 3, 0 := 6),
          fr := (fr dbl_call)(1 := \<lparr>f_start = 0, f_end = 20, f_ip = 20, f_ra = 5\<rparr>)\<rparr>)
   \<and> ra (dbl_call\<lparr>
          st := (st dbl_call)(1 := 3, 0 := 6),
          fr := (fr dbl_call)(1 := \<lparr>f_start = 0, f_end = 20, f_ip = 20, f_ra = 5\<rparr>)\<rparr>) = 5
   \<and> stack (dbl_call\<lparr>
          st := (st dbl_call)(1 := 3, 0 := 6),
          fr := (fr dbl_call)(1 := \<lparr>f_start = 0, f_end = 20, f_ip = 20, f_ra = 5\<rparr>)\<rparr>) = [6]"
proof -
  define s1 where "s1 = dbl_call\<lparr>
        fr := (fr dbl_call)(1 := \<lparr>f_start = 0, f_end = 20, f_ip = 20, f_ra = 5\<rparr>),
        fp := 2, start := 4, endp := 8, ip := 4, ra := 0\<rparr>"
  define s2 where "s2 = s1\<lparr>st := (st dbl_call)(1 := 3, 0 := 6), ip := 8\<rparr>"
  define u where "u = dbl_call\<lparr>
          st := (st dbl_call)(1 := 3, 0 := 6),
          fr := (fr dbl_call)(1 := \<lparr>f_start = 0, f_end = 20, f_ip = 20, f_ra = 5\<rparr>)\<rparr>"
  have b: "fn_end (fn dbl_call (sint (4 :: T))) \<noteq> 0" by (simp add: dbl_call_def)
  have b1: "in_fn (sint (4 :: T))" by (simp add: in_fn_def)
  have b2: "in_fr (fp dbl_call)" by (simp add: in_fr_def dbl_call_def)
  have a: "asm_nibbles ''dbl:%+:5=3 dbl.''
       = Inr [0, 4, 10, 9, 0, 10, 4, 1, 9, 0, 5, 10, 5, 0, 3, 10, 0, 4, 10, 10]"
    by (simp add: b4_eval)
  have e: "exe s1 = Some (Inr s2)"
    unfolding s1_def s2_def dbl_call_def by (simp add: b4_eval fun_upd_twist)
  have p: "frame_pop (s2\<lparr>fp := fp s2 - 1\<rparr>) = Inr u"
    unfolding s1_def s2_def u_def dbl_call_def by (simp add: frame_pop_def in_fr_def b4_zero_def)
  have "fp s2 - 1 = 1" by (simp add: s2_def s1_def)
  from returns_to.here [OF e this _ p] have r: "returns_to 1 s1 u" by simp
  note t = call_saves_and_restores_register [OF b1 b b2]
  from t have 1: "run 4 dbl_call = Inr s1"
    by (simp add: s1_def dbl_call_def b4_zero_def)
  have "fp dbl_call = 1" by (simp add: dbl_call_def)
  with t 1 r have 2: "ra u = ra dbl_call" by metis
  have 3: "ra dbl_call = 5" by (simp add: dbl_call_def)
  have 4: "stack u = [6]" by (simp add: u_def stack_def dbl_call_def upto.simps)
  from b b1 b2 a 1 r 2 3 4 show ?thesis unfolding s1_def u_def by simp
qed

section \<open>The assembler and the full stop (C7)\<close>

text \<open>
  C7, as stated, at the text \<open>.top\<close>: the claim has the full stop emit one call code at
  that point whatever follows, that is, leave the flag alone and write \<open>C_RUN\<close>. Before
  a letter the assembler writes nothing at the full stop and sets the flag \<open>run\<close>; the
  code of \<open>.top\<close> is the literal of the id of \<open>top\<close> and then \<open>C_RUN\<close>.
\<close>

theorem dot_before_name_counterexample:
  "b4asmS_step ''.top'' 0 False init_names (zeros, 0) = Inr (1, True, init_names, (zeros, 0))
   \<and> b4asmS_step ''.top'' 0 False init_names (zeros, 0)
       \<noteq> Inr (1, False, init_names, emit C_RUN (zeros, 0))
   \<and> asm_nibbles ''.top'' = Inr [C_BCD, BCD_N, C_RUN]"
  by (simp add: b4_eval)

text \<open>
  C7, amended: a full stop followed by a character that is neither a letter nor an
  underscore (or by the end of the text) makes the assembler emit exactly one call
  code at that point and nothing else: the buffer grows by the one nibble \<open>C_RUN\<close> and
  the nibbles before it stay. A full stop followed by a letter or an underscore emits
  nothing at that point; it sets the flag \<open>run\<close>, and the turn of the loop for the
  identifier that follows emits the literal of its id and then the call code.
\<close>

theorem dot_emits_call:
  assumes "p < length src" and "src ! p = CHR ''.''"
  shows "b4asmS_step src p runf nms qi =
      (if isalpha (char_at src (p + 1)) \<or> char_at src (p + 1) = CHR ''_''
       then Inr (p + 1, True, nms, qi)
       else Inr (p + 1, runf, nms, emit C_RUN qi))
    \<and> (emit_ready qi \<longrightarrow>
         snd (emit C_RUN qi) = snd qi + 1
         \<and> nibble (fst (emit C_RUN qi)) (snd qi) = C_RUN
         \<and> (\<forall>j. 0 \<le> j \<and> j < snd qi \<longrightarrow> nibble (fst (emit C_RUN qi)) j = nibble (fst qi) j))
    \<and> (\<forall>name p2 i nms2.
         (isalpha (char_at src (p + 1)) \<or> char_at src (p + 1) = CHR ''_'')
         \<and> ident src (p + 2) [char_at src (p + 1)] = Inr (name, p2)
         \<and> sym name nms = Inr (i, nms2)
         \<longrightarrow> b4asmS_step src (p + 1) True nms qi
              = Inr (p2, False, nms2, emit C_RUN (emitBCD (fst qi) (snd qi) i)))"
proof -
  from assms have c: "char_at src p = CHR ''.''" by (simp add: char_at_def)
  have 1: "b4asmS_step src p runf nms qi =
      (if isalpha (char_at src (p + 1)) \<or> char_at src (p + 1) = CHR ''_''
       then Inr (p + 1, True, nms, qi)
       else Inr (p + 1, runf, nms, emit C_RUN qi))"
    by (simp add: b4asmS_step_def c isalpha_def isdigit_def Let_def)
  obtain q i where qi: "qi = (q, i)" by (cases qi)
  have 2: "emit_ready qi \<longrightarrow>
         snd (emit C_RUN qi) = snd qi + 1
         \<and> nibble (fst (emit C_RUN qi)) (snd qi) = C_RUN
         \<and> (\<forall>j. 0 \<le> j \<and> j < snd qi \<longrightarrow> nibble (fst (emit C_RUN qi)) j = nibble (fst qi) j)"
    unfolding qi using snd_emit [of C_RUN q i] nibble_emit_same [of q i C_RUN]
      nibble_emit_below [of _ i C_RUN q] by simp
  have 3: "b4asmS_step src (p + 1) True nms qi
      = Inr (p2, False, nms2, emit C_RUN (emitBCD (fst qi) (snd qi) i))"
    if "isalpha (char_at src (p + 1)) \<or> char_at src (p + 1) = CHR ''_''"
      and "ident src (p + 2) [char_at src (p + 1)] = Inr (name, p2)"
      and "sym name nms = Inr (i, nms2)" for name p2 i nms2
    using that by (auto simp add: b4asmS_step_def Let_def)
  from 1 2 3 show ?thesis by blast
qed

text \<open>Both turns of the loop on the text \<open>.top\<close>.\<close>

theorem dot_emits_call_witness:
  "(0::nat) < length ''.top'' \<and> ''.top'' ! 0 = CHR ''.''
   \<and> b4asmS_step ''.top'' 0 False init_names (zeros, 0) = Inr (1, True, init_names, (zeros, 0))
   \<and> emit_ready (zeros, 0)
   \<and> snd (emit C_RUN (zeros, 0)) = 1 \<and> nibble (fst (emit C_RUN (zeros, 0))) 0 = C_RUN
   \<and> b4asmS_step ''.top'' 1 True init_names (zeros, 0)
       = Inr (4, False, init_names, emit C_RUN (emitBCD zeros 0 0))"
proof -
  have h: "(0::nat) < length ''.top''" "''.top'' ! 0 = CHR ''.''" by simp_all
  have r: "emit_ready (zeros, 0)" by (simp add: emit_ready_def)
  have a: "isalpha (char_at ''.top'' (0 + 1))" by (simp add: isalpha_def char_at_def)
  have i: "ident ''.top'' (0 + 2) [char_at ''.top'' (0 + 1)] = Inr (''top'', 4)"
    by (simp add: ident.simps char_at_def isalnum_def isalpha_def isdigit_def)
  have s: "sym ''top'' init_names = Inr (0, init_names)"
    by (simp add: sym_def init_names_def)
  note t = dot_emits_call [OF h, of False init_names "(zeros, 0)"]
  from t a have 1: "b4asmS_step ''.top'' 0 False init_names (zeros, 0)
      = Inr (0 + 1, True, init_names, (zeros, 0))" by simp
  from t r have 2: "snd (emit C_RUN (zeros, 0)) = snd (zeros :: int \<Rightarrow> C, 0 :: int) + 1
      \<and> nibble (fst (emit C_RUN (zeros, 0))) (snd (zeros :: int \<Rightarrow> C, 0 :: int)) = C_RUN" by blast
  from t a i s have 3: "b4asmS_step ''.top'' (0 + 1) True init_names (zeros, 0)
      = Inr (4, False, init_names, emit C_RUN (emitBCD (fst (zeros :: int \<Rightarrow> C, 0 :: int)) (snd (zeros :: int \<Rightarrow> C, 0 :: int)) 0))"
    by blast
  from h r 1 2 3 show ?thesis by simp
qed

section \<open>Omission of the leading digit (C8)\<close>

text \<open>
  C8, as stated, at \<open>v = 0\<close>: the literal of 0 is \<open>C_BCD\<close> followed by plain-end. It has no
  digit code, so the leading digit is omitted (the literal is one code longer than the
  number has digits), although that digit is 0 and not 1.
\<close>

theorem encode_zero_counterexample:
  "emitted zeros 0 0 = [C_BCD, BCD_N] \<and> digits 0 = [0]
   \<and> \<not> ((length (emitted zeros 0 0) = length (digits 0) + 1) = (last (digits 0) = 1))"
  by (simp add: emitted_def emitBCD_def emit_def digits.simps Let_def nibble_def zeros_def
      signed_divide_int_def signed_modulo_int_def upto.simps)

text \<open>
  C8, amended: \<open>emitBCD\<close> writes \<open>C_BCD\<close>, then the leading digit only when it is greater
  than 1, then the other digits, then prefixed-end when the leading digit is 1 and
  plain-end otherwise. So for every positive \<open>v\<close> the leading digit is omitted if and
  only if it is 1, with prefixed-end exactly in that case and plain-end otherwise; for
  \<open>v = 0\<close> the only digit, 0, is omitted too, with plain-end.
\<close>

theorem leading_digit_omission:
  assumes "emit_ready (q, i)" and "0 \<le> v"
  shows "emitted q i v =
      C_BCD # (if last (digits v) > 1 then [word_of_int (last (digits v))] else [])
        @ map word_of_int (rev (butlast (digits v)))
        @ [if last (digits v) = 1 then BCD_P else BCD_N]
    \<and> (0 < v \<longrightarrow>
         ((length (emitted q i v) = length (digits v) + 1) = (last (digits v) = 1))
         \<and> ((last (emitted q i v) = BCD_P) = (last (digits v) = 1))
         \<and> ((last (emitted q i v) = BCD_N) = (last (digits v) \<noteq> 1)))
    \<and> (v = 0 \<longrightarrow> emitted q i v = [C_BCD, BCD_N])"
proof -
  have e: "emitted q i v =
      C_BCD # (if last (digits v) > 1 then [word_of_int (last (digits v))] else [])
        @ map word_of_int (rev (butlast (digits v)))
        @ [if last (digits v) = 1 then BCD_P else BCD_N]"
    using emitted_codes [OF assms] by (simp add: bcd_codes_def Let_def)
  have len: "length (butlast (digits v)) + 1 = length (digits v)"
    using digits_not_Nil [of v] by (simp add: Suc_pred)
  have pos: ?thesis if "0 < v"
  proof -
    from last_digits_pos [OF that] have "last (digits v) = 1 \<or> 1 < last (digits v)" by arith
    then show ?thesis using e len that by auto
  qed
  have zero: ?thesis if "v = 0"
    using e that by (simp add: digits.simps signed_divide_int_def signed_modulo_int_def)
  from assms(2) pos zero show ?thesis by (cases "v = 0") auto
qed

text \<open>At \<open>v = 1024\<close> the leading 1 is omitted and the literal ends with prefixed-end.\<close>

theorem leading_digit_omission_witness:
  "emit_ready (zeros, 0) \<and> (0::int) \<le> 1024 \<and> (0::int) < 1024
   \<and> digits 1024 = [4, 2, 0, 1]
   \<and> emitted zeros 0 1024 = [C_BCD, 0, 2, 4, BCD_P]
   \<and> length (emitted zeros 0 1024) = length (digits 1024) + 1
   \<and> last (emitted zeros 0 1024) = BCD_P"
proof -
  have r: "emit_ready (zeros, 0)" by (simp add: emit_ready_def)
  have d: "digits 1024 = [4, 2, 0, 1]"
    by (simp add: digits.simps signed_divide_int_def signed_modulo_int_def)
  from leading_digit_omission [OF r, of 1024] d r show ?thesis by simp
qed

section \<open>DEFINE records the function body (C9)\<close>

text \<open>
  C9: DEFINE pops the id and calls \<open>dfn\<close>, for an id that is an index of the table
  \<open>fn\<close> (with another id \<open>dfn\<close> indexes \<open>fn\<close> outside its bounds). If, reading the current range as
  instructions from the position just after DEFINE, an instruction \<open>C_DFN\<close> is reached
  at \<open>t\<close> before the end of the range (the first one: \<open>instr_at\<close> passes no \<open>C_DFN\<close>
  instruction, and the nibbles of a literal, a digit 9 among them, are no instructions),
  then the entry of the id becomes the body from the position just after DEFINE up to
  \<open>t\<close>, and execution resumes at \<open>t + 1\<close>. If no such instruction is reached before the
  end of the range, \<open>dfn\<close> is the fatal error \<open>Couldn't match `:`\<close>.
\<close>

theorem define_records_body:
  "(0 < sp s0 \<and> sp s0 \<le> MAXSP \<longrightarrow>
      exe_case C_DFN s0 = Some (dfn (st s0 (sp s0 - 1)) (s0\<lparr>sp := sp s0 - 1\<rparr>)))
   \<and> (in_fn (sint i) \<and> instr_at (code s) (endp s) (ip s) t \<and> t < endp s
        \<and> nibble (code s) t = C_DFN
        \<longrightarrow> dfn i s = Inr (s\<lparr>fn := (fn s)(sint i := \<lparr>fn_start = ip s, fn_end = t\<rparr>), ip := t + 1\<rparr>))
   \<and> (in_fn (sint i)
        \<and> (\<forall>t. instr_at (code s) (endp s) (ip s) t \<and> t < endp s \<longrightarrow> nibble (code s) t \<noteq> C_DFN)
        \<longrightarrow> dfn i s = Inl (Exit Couldnt_match_dfn))
   \<and> (\<not> in_fn (sint i) \<longrightarrow> dfn i s = Inl (Out_of_bounds Array_fn))"
proof -
  have 1: "exe_case C_DFN s0 = Some (dfn (st s0 (sp s0 - 1)) (s0\<lparr>sp := sp s0 - 1\<rparr>))"
    if "0 < sp s0 \<and> sp s0 \<le> MAXSP"
    using that by (simp add: exe_case_def and_then_def pop_def in_st_def)
  have 2: "dfn i s = Inr (s\<lparr>fn := (fn s)(sint i := \<lparr>fn_start = ip s, fn_end = t\<rparr>), ip := t + 1\<rparr>)"
    if "in_fn (sint i)" "instr_at (code s) (endp s) (ip s) t" "t < endp s" "nibble (code s) t = C_DFN"
    using dfn_close_loop_found [OF that(2,3,4)] that(1) by (simp add: dfn_result)
  have 3: "dfn i s = Inl (Exit Couldnt_match_dfn)"
    if i: "in_fn (sint i)"
      and none: "\<forall>t. instr_at (code s) (endp s) (ip s) t \<and> t < endp s \<longrightarrow> nibble (code s) t \<noteq> C_DFN"
  proof (cases "dfn_close_loop (code s) (endp s) (ip s)")
    case (Inl f)
    with dfn_close_loop_Inl [OF Inl] i show ?thesis by (simp add: dfn_result)
  next
    case (Inr r)
    from dfn_close_loop_Inr [OF Inr instr_at.first] none show ?thesis by blast
  qed
  have 4: "dfn i s = Inl (Out_of_bounds Array_fn)" if "\<not> in_fn (sint i)"
    using that by (simp add: dfn_result)
  from 1 2 3 4 show ?thesis by blast
qed

text \<open>
  The code of the text \<open>f:9:\<close> is 0 4 10 9 0 9 10 9: the body of \<open>f\<close> is the literal of 9
  at positions 4 to 6, whose digit 9 at position 5 is not taken for the terminator at 7.
\<close>

theorem define_records_body_witness:
  "asm_nibbles ''f:9:'' = Inr [0, 4, 10, 9, 0, 9, 10, 9]
   \<and> in_fn (sint (4 :: T))
   \<and> instr_at (fst (fold emit [0, 4, 10, 9, 0, 9, 10, 9] (zeros, 0))) 8 4 7
   \<and> (7::int) < 8
   \<and> nibble (fst (fold emit [0, 4, 10, 9, 0, 9, 10, 9] (zeros, 0))) 7 = C_DFN
   \<and> dfn 4 (b4_zero\<lparr>code := fst (fold emit [0, 4, 10, 9, 0, 9, 10, 9] (zeros, 0)), ip := 4, endp := 8\<rparr>)
       = Inr (b4_zero\<lparr>code := fst (fold emit [0, 4, 10, 9, 0, 9, 10, 9] (zeros, 0)),
               fn := (fn b4_zero)(4 := \<lparr>fn_start = 4, fn_end = 7\<rparr>), ip := 8, endp := 8\<rparr>)"
proof -
  define c where "c = fst (fold emit [0, 4, 10, 9, 0, 9, 10, 9] (zeros :: int \<Rightarrow> C, 0))"
  have n: "nibble c 4 = 0" "nibble c 5 = 9" "nibble c 6 = 10" "nibble c 7 = 9"
    by (simp_all add: c_def emit_def nibble_def zeros_def signed_divide_int_def)
  have a: "asm_nibbles ''f:9:'' = Inr [0, 4, 10, 9, 0, 9, 10, 9]"
    by (simp add: b4_eval)
  have "\<forall>j. (4::int) \<le> j \<and> j < 6 \<longrightarrow> nibble c j \<noteq> BCD_N \<and> nibble c j \<noteq> BCD_P"
  proof (intro allI impI)
    fix j :: int assume "4 \<le> j \<and> j < 6"
    then have "j = 4 \<or> j = 5" by arith
    with n show "nibble c j \<noteq> BCD_N \<and> nibble c j \<noteq> BCD_P" by auto
  qed
  with instr_at.literal [OF instr_at.first, of 4 8 c 6] n
  have i: "instr_at c 8 4 7" by simp
  define s where "s = b4_zero\<lparr>code := c, ip := 4, endp := 8\<rparr>"
  have s: "code s = c" "endp s = 8" "ip s = 4" by (simp_all add: s_def)
  have f: "in_fn (sint (4 :: T))" by (simp add: in_fn_def)
  from define_records_body [of _ 4 s 7] i n s f
  have "dfn 4 s = Inr (s\<lparr>fn := (fn s)(sint (4 :: T) := \<lparr>fn_start = ip s, fn_end = 7\<rparr>), ip := 7 + 1\<rparr>)"
    by simp
  then have "dfn 4 s = Inr (b4_zero\<lparr>code := c, fn := (fn b4_zero)(4 := \<lparr>fn_start = 4, fn_end = 7\<rparr>),
      ip := 8, endp := 8\<rparr>)"
    by (simp add: s_def)
  with a i n f show ?thesis unfolding c_def s_def by simp
qed

section \<open>A literal holds no bracket code (C10)\<close>

text \<open>
  C10: for every non-negative \<open>v\<close>, every nibble that \<open>emitBCD\<close> writes for \<open>v\<close> is at
  most 11, so none is one of the bracket codes 12 to 15. Hence, in any code \<open>c\<close> that
  holds the literal from \<open>i\<close> on, a jump scan for any pair of bracket codes passes
  over the literal with its depth unchanged: the forward scan from the first nibble
  of the literal goes on from the position just past it, and the backward scan from
  its last nibble goes on from the position just before it (the boundary of the scan
  lying outside the literal).
\<close>

theorem literal_has_no_bracket:
  assumes "emit_ready (q, i)" and "0 \<le> v"
    and "map (nibble c) [i..snd (emitBCD q i v) - 1] = emitted q i v"
    and "open \<in> {C_JAO, C_JAC, C_JBO, C_JBC}" and "close \<in> {C_JAO, C_JAC, C_JBO, C_JBC}"
    and "e < i \<or> snd (emitBCD q i v) \<le> e"
  shows "(\<forall>x\<in>set (emitted q i v). x \<le> 11)
    \<and> jmp_scan c open close 1 e i d = jmp_scan c open close 1 e (snd (emitBCD q i v)) d
    \<and> jmp_scan c open close (- 1) e (snd (emitBCD q i v) - 1) d
        = jmp_scan c open close (- 1) e (i - 1) d"
proof -
  let ?i' = "snd (emitBCD q i v)"
  have le11: "\<forall>x\<in>set (emitted q i v). x \<le> 11"
    using bcd_codes_le11 [OF assms(2)] emitted_codes [OF assms(1,2)] by simp
  have i': "?i' = i + int (length (bcd_codes v))" by (rule snd_emitBCD [OF assms(1,2)])
  then have ii': "i \<le> ?i'" by simp
  have reg: "\<forall>k. i \<le> k \<and> k < ?i' \<longrightarrow> nibble c k \<noteq> open \<and> nibble c k \<noteq> close"
  proof (intro allI impI)
    fix k assume k: "i \<le> k \<and> k < ?i'"
    then have "k \<in> set [i..?i' - 1]" by simp
    then have "nibble c k \<in> set (map (nibble c) [i..?i' - 1])" by simp
    with assms(3) le11 have "nibble c k \<le> 11" by simp
    with assms(4,5) show "nibble c k \<noteq> open \<and> nibble c k \<noteq> close" by auto
  qed
  from le11 jmp_scan_skip_fwd [OF reg ii' assms(6)] jmp_scan_skip_bwd [OF reg ii' assms(6)]
  show ?thesis by blast
qed

text \<open>The literal of 2024 at the start of an empty buffer, scanned both ways.\<close>

theorem literal_has_no_bracket_witness:
  "emit_ready (zeros, 0) \<and> (0::int) \<le> 2024
   \<and> emitted zeros 0 2024 = [C_BCD, 2, 0, 2, 4, BCD_N]
   \<and> snd (emitBCD zeros 0 2024) = 6
   \<and> jmp_scan (fst (emitBCD zeros 0 2024)) C_JAO C_JAC 1 6 0 0
       = jmp_scan (fst (emitBCD zeros 0 2024)) C_JAO C_JAC 1 6 6 0
   \<and> jmp_scan (fst (emitBCD zeros 0 2024)) C_JAO C_JAC (- 1) 6 5 0
       = jmp_scan (fst (emitBCD zeros 0 2024)) C_JAO C_JAC (- 1) 6 (- 1) 0"
proof -
  have r: "emit_ready (zeros, 0)" by (simp add: emit_ready_def)
  have e: "snd (emitBCD zeros 0 2024) = 6"
    by (simp add: emitBCD_def emit_def digits.simps Let_def signed_divide_int_def signed_modulo_int_def)
  have m: "emitted zeros 0 2024 = [C_BCD, 2, 0, 2, 4, BCD_N]"
    by (simp add: emitted_def emitBCD_def emit_def digits.simps Let_def nibble_def zeros_def
      signed_divide_int_def signed_modulo_int_def upto.simps)
  have m': "map (nibble (fst (emitBCD zeros 0 2024))) [0..snd (emitBCD zeros 0 2024) - 1]
      = emitted zeros 0 2024"
    by (simp add: emitted_def case_prod_beta)
  from literal_has_no_bracket [OF r _ m', of C_JAO C_JAC 6 0] r e m show ?thesis by simp
qed

end
